theory Spec2Isabelle
  imports Complex_Main
begin

section \<open>Data model\<close>

text \<open>
  The repository holds the game twice: the single-file build \<^verbatim>\<open>index.tsx\<close> and the
  modular build (\<^verbatim>\<open>App.tsx\<close>, \<^verbatim>\<open>constants.ts\<close>, the hook \<^verbatim>\<open>useMediaPipe\<close>).
  Where both define a function of the same name, the constant named as in the source
  embeds the modular build and the constant with the suffix \<open>_index\<close> embeds
  \<^verbatim>\<open>index.tsx\<close>. \<^verbatim>\<open>GameScene\<close> exists only in \<^verbatim>\<open>index.tsx\<close>.

  JavaScript numbers are modelled as \<open>real\<close> (coordinates, times) and as \<open>int\<close>
  (score, combo, multiplier, health, which only ever hold integers); rounding and NaN
  are outside the model.
\<close>

datatype GameStatus = LOADING | IDLE | PLAYING | GAME_OVER | VICTORY

datatype HandType = LeftHand | RightHand

datatype CutDirection = UP | DOWN | LEFT | RIGHT | ANY

record NoteData =
  note_id :: string
  time :: real
  lineIndex :: nat
  lineLayer :: nat
  note_type :: HandType
  cutDirection :: CutDirection
  requiresGrip :: "bool option"
  hit :: bool
  missed :: bool
  hitTime :: "real option"

text \<open>
  Notes are objects shared between the chart array, the active list and the callbacks, and
  their flags are mutated in place. A reference to a note is its index in the chart array;
  the events emitted by the simulation carry that reference.
\<close>

type_synonym NoteRef = nat

datatype Event = NoteHit NoteRef bool | NoteMiss NoteRef | SongEnd

section \<open>Score, combo and health (\<^verbatim>\<open>App\<close>)\<close>

text \<open>
  The React state of \<^verbatim>\<open>App\<close>. \<open>pendingTimeouts\<close> holds the arguments of the
  \<^verbatim>\<open>endGame\<close> calls queued by \<^verbatim>\<open>setTimeout(() => endGame(false), 0)\<close>, oldest first.
  A handler reads \<^verbatim>\<open>multiplier\<close> from its closure, that is the value before the event.
\<close>

record AppState =
  gameStatus :: GameStatus
  score :: int
  combo :: int
  multiplier :: int
  health :: int
  pendingTimeouts :: "bool list"

definition initialApp :: AppState where
  "initialApp = \<lparr>gameStatus = PLAYING, score = 0, combo = 0, multiplier = 1, health = 100,
     pendingTimeouts = []\<rparr>"

definition comboMultiplier :: "int \<Rightarrow> int" where
  "comboMultiplier newCombo =
     (if newCombo > 30 then 8 else if newCombo > 20 then 4 else if newCombo > 10 then 2 else 1)"

text \<open>\<^verbatim>\<open>App.tsx\<close>, \<^verbatim>\<open>handleNoteHit\<close> and \<^verbatim>\<open>handleNoteMiss\<close>.\<close>

definition handleNoteHit :: "NoteRef \<Rightarrow> bool \<Rightarrow> AppState \<Rightarrow> AppState" where
  "handleNoteHit note goodCut s =
     (if goodCut then
        (let points = 150 in
         s\<lparr>combo := combo s + 1,
           multiplier := comboMultiplier (combo s + 1),
           score := score s + points * multiplier s,
           health := min 100 (health s + 2)\<rparr>)
      else
        s\<lparr>combo := 0,
          multiplier := 1,
          score := max 0 (score s - 50),
          health := max 0 (health s - 5)\<rparr>)"

definition handleNoteMiss :: "NoteRef \<Rightarrow> AppState \<Rightarrow> AppState" where
  "handleNoteMiss note s =
     (let newHealth = health s - 15 in
      s\<lparr>combo := 0,
        multiplier := 1,
        score := max 0 (score s - 50),
        health := (if newHealth \<le> 0 then 0 else newHealth),
        pendingTimeouts := (if newHealth \<le> 0 then pendingTimeouts s @ [False]
                            else pendingTimeouts s)\<rparr>)"

text \<open>\<^verbatim>\<open>index.tsx\<close>, \<^verbatim>\<open>handleNoteHit\<close> and \<^verbatim>\<open>handleNoteMiss\<close>.\<close>

definition handleNoteHit_index :: "NoteRef \<Rightarrow> bool \<Rightarrow> AppState \<Rightarrow> AppState" where
  "handleNoteHit_index note goodCut s =
     (let points = (if goodCut then 100 + 50 else 100) in
      s\<lparr>combo := combo s + 1,
        multiplier := comboMultiplier (combo s + 1),
        score := score s + points * multiplier s,
        health := min 100 (health s + 2)\<rparr>)"

definition handleNoteMiss_index :: "NoteRef \<Rightarrow> AppState \<Rightarrow> AppState" where
  "handleNoteMiss_index note s =
     (let newHealth = health s - 15 in
      s\<lparr>combo := 0,
        multiplier := 1,
        health := (if newHealth \<le> 0 then 0 else newHealth),
        pendingTimeouts := (if newHealth \<le> 0 then pendingTimeouts s @ [False]
                            else pendingTimeouts s)\<rparr>)"

text \<open>\<^verbatim>\<open>endGame\<close> (the same in both builds; pausing the audio is not modelled).\<close>

definition endGame :: "bool \<Rightarrow> AppState \<Rightarrow> AppState" where
  "endGame victory s = s\<lparr>gameStatus := (if victory then VICTORY else GAME_OVER)\<rparr>"

text \<open>The queued timeouts run in order once the current task has finished.\<close>

definition runTimeouts :: "AppState \<Rightarrow> AppState" where
  "runTimeouts s = foldl (\<lambda>a victory. endGame victory a) (s\<lparr>pendingTimeouts := []\<rparr>)
     (pendingTimeouts s)"

text \<open>
  The callbacks \<^verbatim>\<open>onNoteHit\<close>, \<^verbatim>\<open>onNoteMiss\<close> and \<^verbatim>\<open>onSongEnd\<close> that \<^verbatim>\<open>App\<close> passes to
  \<^verbatim>\<open>GameScene\<close>, as one step function over the emitted events.
\<close>

fun reduce :: "AppState \<Rightarrow> Event \<Rightarrow> AppState" where
  "reduce s (NoteHit note goodCut) = handleNoteHit note goodCut s"
| "reduce s (NoteMiss note) = handleNoteMiss note s"
| "reduce s SongEnd = endGame True s"

fun reduce_index :: "AppState \<Rightarrow> Event \<Rightarrow> AppState" where
  "reduce_index s (NoteHit note goodCut) = handleNoteHit_index note goodCut s"
| "reduce_index s (NoteMiss note) = handleNoteMiss_index note s"
| "reduce_index s SongEnd = endGame True s"

section \<open>Vectors (three.js \<^verbatim>\<open>Vector3\<close>)\<close>

text \<open>
  \<^verbatim>\<open>THREE.Vector3\<close> belongs to the three.js library, not to the repository; the
  operations the game calls are written out from the library's documented meaning.
  \<^verbatim>\<open>normalize()\<close> divides by \<^verbatim>\<open>length() || 1\<close>, so the zero vector stays zero.
\<close>

record Vector3 =
  vx :: real
  vy :: real
  vz :: real

definition vlength :: "Vector3 \<Rightarrow> real" where
  "vlength v = sqrt (vx v * vx v + vy v * vy v + vz v * vz v)"

definition distanceToSquared :: "Vector3 \<Rightarrow> Vector3 \<Rightarrow> real" where
  "distanceToSquared a b =
     (let dx = vx a - vx b; dy = vy a - vy b; dz = vz a - vz b
      in dx * dx + dy * dy + dz * dz)"

definition distanceTo :: "Vector3 \<Rightarrow> Vector3 \<Rightarrow> real" where
  "distanceTo a b = sqrt (distanceToSquared a b)"

definition multiplyScalar :: "Vector3 \<Rightarrow> real \<Rightarrow> Vector3" where
  "multiplyScalar v k = \<lparr>vx = vx v * k, vy = vy v * k, vz = vz v * k\<rparr>"

definition divideScalar :: "Vector3 \<Rightarrow> real \<Rightarrow> Vector3" where
  "divideScalar v k = multiplyScalar v (1 / k)"

definition normalize :: "Vector3 \<Rightarrow> Vector3" where
  "normalize v = divideScalar v (if vlength v = 0 then 1 else vlength v)"

definition dot :: "Vector3 \<Rightarrow> Vector3 \<Rightarrow> real" where
  "dot a b = vx a * vx b + vy a * vy b + vz a * vz b"

definition subVectors :: "Vector3 \<Rightarrow> Vector3 \<Rightarrow> Vector3" where
  "subVectors a b = \<lparr>vx = vx a - vx b, vy = vy a - vy b, vz = vz a - vz b\<rparr>"

definition lerpVectors :: "Vector3 \<Rightarrow> Vector3 \<Rightarrow> real \<Rightarrow> Vector3" where
  "lerpVectors v1 v2 alpha =
     \<lparr>vx = vx v1 + (vx v2 - vx v1) * alpha,
      vy = vy v1 + (vy v2 - vy v1) * alpha,
      vz = vz v1 + (vz v2 - vz v1) * alpha\<rparr>"

definition zeroVector :: Vector3 where
  "zeroVector = \<lparr>vx = 0, vy = 0, vz = 0\<rparr>"

section \<open>Constants of \<^verbatim>\<open>index.tsx\<close>\<close>

definition SPAWN_Z :: real where "SPAWN_Z = -30"
definition PLAYER_Z :: real where "PLAYER_Z = 0"
definition MISS_Z :: real where "MISS_Z = 5"
definition NOTE_SPEED :: real where "NOTE_SPEED = 10"
definition LANE_WIDTH :: real where "LANE_WIDTH = 0.8"
definition SONG_BPM :: real where "SONG_BPM = 140"
definition BEAT_TIME :: real where "BEAT_TIME = 60 / SONG_BPM"

definition LANE_X_POSITIONS :: "real list" where
  "LANE_X_POSITIONS = [-1.5 * LANE_WIDTH, -0.5 * LANE_WIDTH, 0.5 * LANE_WIDTH, 1.5 * LANE_WIDTH]"

definition LAYER_Y_POSITIONS :: "real list" where
  "LAYER_Y_POSITIONS = [0.8, 1.6, 2.4]"

fun DIRECTION_VECTORS :: "CutDirection \<Rightarrow> Vector3" where
  "DIRECTION_VECTORS UP = \<lparr>vx = 0, vy = 1, vz = 0\<rparr>"
| "DIRECTION_VECTORS DOWN = \<lparr>vx = 0, vy = -1, vz = 0\<rparr>"
| "DIRECTION_VECTORS LEFT = \<lparr>vx = -1, vy = 0, vz = 0\<rparr>"
| "DIRECTION_VECTORS RIGHT = \<lparr>vx = 1, vy = 0, vz = 0\<rparr>"
| "DIRECTION_VECTORS ANY = \<lparr>vx = 0, vy = 0, vz = 0\<rparr>"

text \<open>Reading an array: an index outside the array gives \<^verbatim>\<open>undefined\<close>, here \<open>None\<close>.\<close>

definition lookup :: "'a list \<Rightarrow> nat \<Rightarrow> 'a option" where
  "lookup xs i = (if i < length xs then Some (xs ! i) else None)"

section \<open>Hand state\<close>

record HandPositions =
  left :: "Vector3 option"
  right :: "Vector3 option"
  lastLeft :: "Vector3 option"
  lastRight :: "Vector3 option"
  leftVelocity :: Vector3
  rightVelocity :: Vector3
  leftGripping :: bool
  rightGripping :: bool
  lastTimestamp :: real

definition initialHands :: HandPositions where
  "initialHands = \<lparr>left = None, right = None, lastLeft = None, lastRight = None,
     leftVelocity = zeroVector, rightVelocity = zeroVector,
     leftGripping = False, rightGripping = False, lastTimestamp = 0\<rparr>"

section \<open>The per-frame update of \<^verbatim>\<open>GameScene\<close> (\<^verbatim>\<open>index.tsx\<close>)\<close>

text \<open>
  The refs of \<^verbatim>\<open>GameScene\<close>: the chart array with its mutable notes, the list of active
  notes (references into the chart) and the cursor \<^verbatim>\<open>nextNoteIndexRef\<close>.
\<close>

record GameSceneState =
  notesState :: "NoteData list"
  activeNotes :: "NoteRef list"
  nextNoteIndex :: nat

record Audio =
  currentTime :: real
  ended :: bool

definition spawnAheadTime :: real where
  "spawnAheadTime = \<bar>SPAWN_Z - PLAYER_Z\<bar> / NOTE_SPEED"

text \<open>The activation loop: \<^verbatim>\<open>while (nextNoteIndexRef.current < notesState.length)\<close>.\<close>

function activateNotes :: "real \<Rightarrow> GameSceneState \<Rightarrow> GameSceneState" where
  "activateNotes t s =
     (if nextNoteIndex s < length (notesState s) then
        (let nextNote = notesState s ! nextNoteIndex s in
         if time nextNote - spawnAheadTime \<le> t then
           activateNotes t
             (s\<lparr>activeNotes := activeNotes s @ [nextNoteIndex s],
                nextNoteIndex := Suc (nextNoteIndex s)\<rparr>)
         else s)
      else s)"
  by pat_completeness auto
termination
  by (relation "measure (\<lambda>(t, s). length (notesState s) - nextNoteIndex s)") auto

declare activateNotes.simps [simp del]

definition currentZ :: "real \<Rightarrow> NoteData \<Rightarrow> real" where
  "currentZ t note = (let timeDiff = time note - t in PLAYER_Z - (timeDiff * NOTE_SPEED))"

text \<open>
  \<^verbatim>\<open>handPos.distanceTo(notePos) < 0.8\<close>; a lane or layer index outside its table makes
  a coordinate \<^verbatim>\<open>undefined\<close>, the distance NaN and the comparison false.
\<close>

definition withinReach :: "Vector3 \<Rightarrow> NoteData \<Rightarrow> real \<Rightarrow> bool" where
  "withinReach handPos note z =
     (case (lookup LANE_X_POSITIONS (lineIndex note), lookup LAYER_Y_POSITIONS (lineLayer note)) of
        (Some lx, Some ly) \<Rightarrow> distanceTo handPos \<lparr>vx = lx, vy = ly, vz = z\<rparr> < 0.8
      | _ \<Rightarrow> False)"

definition goodCut :: "Vector3 \<Rightarrow> NoteData \<Rightarrow> bool" where
  "goodCut handVel note =
     (let speed = vlength handVel in
      if cutDirection note \<noteq> ANY then
        (let requiredDir = DIRECTION_VECTORS (cutDirection note);
             d = dot (normalize handVel) requiredDir
         in \<not> (d < 0.3 \<or> speed < 1.5))
      else \<not> speed < 1.5)"

definition splice1 :: "nat \<Rightarrow> 'a list \<Rightarrow> 'a list" where
  "splice1 i xs = take i xs @ drop (Suc i) xs"

text \<open>
  One pass of the body of \<^verbatim>\<open>for (let i = activeNotesRef.current.length - 1; i >= 0; i--)\<close>
  at index \<open>i\<close>; the events are the callbacks invoked so far, in order.
\<close>

definition judgeAt ::
  "real \<Rightarrow> HandPositions \<Rightarrow> nat \<Rightarrow> GameSceneState \<times> Event list \<Rightarrow> GameSceneState \<times> Event list" where
  "judgeAt t hands i st =
     (let s = fst st; evs = snd st;
          ref = activeNotes s ! i;
          note = notesState s ! ref
      in if hit note \<or> missed note then st
         else
           (let z = currentZ t note in
            if z > MISS_Z then
              (s\<lparr>notesState := (notesState s)[ref := note\<lparr>missed := True\<rparr>],
                 activeNotes := splice1 i (activeNotes s)\<rparr>,
               evs @ [NoteMiss ref])
            else if z > PLAYER_Z - 1.5 \<and> z < PLAYER_Z + 1.0 then
              (let handPos = (if note_type note = LeftHand then left hands else right hands);
                   handVel = (if note_type note = LeftHand then leftVelocity hands
                              else rightVelocity hands)
               in case handPos of
                    None \<Rightarrow> st
                  | Some hp \<Rightarrow>
                      if withinReach hp note z then
                        (s\<lparr>notesState := (notesState s)[ref := note\<lparr>hit := True, hitTime := Some t\<rparr>],
                           activeNotes := splice1 i (activeNotes s)\<rparr>,
                         evs @ [NoteHit ref (goodCut handVel note)])
                      else st)
            else st))"

primrec judgeLoop ::
  "real \<Rightarrow> HandPositions \<Rightarrow> nat \<Rightarrow> GameSceneState \<times> Event list \<Rightarrow> GameSceneState \<times> Event list" where
  "judgeLoop t hands 0 st = st"
| "judgeLoop t hands (Suc i) st = judgeLoop t hands i (judgeAt t hands i st)"

text \<open>
  The game part of the \<^verbatim>\<open>useFrame\<close> callback (lights, camera shake and \<^verbatim>\<open>setCurrentTime\<close>
  only feed the rendering). The result is the new state of the refs and the callbacks
  invoked, in order.
\<close>

definition useFrame ::
  "GameStatus \<Rightarrow> Audio option \<Rightarrow> HandPositions \<Rightarrow> GameSceneState \<Rightarrow> GameSceneState \<times> Event list" where
  "useFrame status audio hands s =
     (if status \<noteq> PLAYING then (s, [])
      else case audio of
        None \<Rightarrow> (s, [])
      | Some a \<Rightarrow>
          if ended a then (s, [SongEnd])
          else
            (let t = currentTime a;
                 s1 = activateNotes t s
             in judgeLoop t hands (length (activeNotes s1)) (s1, [])))"

text \<open>A run of frames of a playing session whose audio has not ended, collecting the callbacks.\<close>

fun playFrames ::
  "(real \<times> HandPositions) list \<Rightarrow> GameSceneState \<times> Event list \<Rightarrow> GameSceneState \<times> Event list" where
  "playFrames [] st = st"
| "playFrames ((t, hands) # fs) st =
     (let r = useFrame PLAYING (Some \<lparr>currentTime = t, ended = False\<rparr>) hands (fst st)
      in playFrames fs (fst r, snd st @ snd r))"

definition initialScene :: "NoteData list \<Rightarrow> GameSceneState" where
  "initialScene chart = \<lparr>notesState = chart, activeNotes = [], nextNoteIndex = 0\<rparr>"

section \<open>Hand tracking (\<^verbatim>\<open>useMediaPipe\<close>)\<close>

text \<open>
  A detection result of the hand landmarker, as far as the code reads it: per detected
  hand a list of landmarks (21 by the landmarker's contract) and a list of handedness
  categories. The code guards against a missing \<^verbatim>\<open>landmarks\<close> or \<^verbatim>\<open>handedness\<close> array, so
  both are optional here. The fields \<^verbatim>\<open>x\<close>, \<^verbatim>\<open>y\<close>, \<^verbatim>\<open>z\<close> of a landmark are \<open>px\<close>, \<open>py\<close>, \<open>pz\<close>.
\<close>

record Landmark =
  px :: real
  py :: real
  pz :: real

record Category =
  categoryName :: string

record HandLandmarkerResult =
  landmarks :: "Landmark list list option"
  handedness :: "Category list list option"

text \<open>Reading a property of \<^verbatim>\<open>undefined\<close> throws a \<^verbatim>\<open>TypeError\<close>.\<close>

datatype error = TypeError

definition mapHandToWorld :: "real \<Rightarrow> real \<Rightarrow> Vector3" where
  "mapHandToWorld x y =
     (let GAME_X_RANGE = 5; GAME_Y_RANGE = 3.5; Y_OFFSET = 0.8;
          worldX = (0.5 - x) * GAME_X_RANGE;
          worldY = (1.0 - y) * GAME_Y_RANGE - (GAME_Y_RANGE / 2) + Y_OFFSET;
          worldZ = - max 0 (worldY * 0.2)
      in \<lparr>vx = worldX, vy = max 0.1 worldY, vz = worldZ\<rparr>)"

text \<open>Landmark indices of (tip, PIP joint) for index, middle, ring and pinky finger.\<close>

definition fingerJoints :: "(nat \<times> nat) list" where
  "fingerJoints = [(8, 6), (12, 10), (16, 14), (20, 18)]"

text \<open>
  \<^verbatim>\<open>checkGrip\<close> of the hook \<^verbatim>\<open>useMediaPipe\<close> (modular build): a finger is curled when its
  tip lies lower on the image than its PIP joint by more than 0.02, and all four must be.
\<close>

fun curlLoop :: "Landmark list \<Rightarrow> (nat \<times> nat) list \<Rightarrow> nat \<Rightarrow> error + nat" where
  "curlLoop lms [] curledFingers = Inr curledFingers"
| "curlLoop lms ((tipI, pipI) # fingers) curledFingers =
     (case lookup lms tipI of
        None \<Rightarrow> Inl TypeError
      | Some tip \<Rightarrow>
          (case lookup lms pipI of
             None \<Rightarrow> Inl TypeError
           | Some pip \<Rightarrow>
               curlLoop lms fingers
                 (if py tip > py pip + 0.02 then curledFingers + 1 else curledFingers)))"

definition checkGrip :: "Landmark list \<Rightarrow> error + bool" where
  "checkGrip lms =
     (case curlLoop lms fingerJoints 0 of
        Inl e \<Rightarrow> Inl e
      | Inr curledFingers \<Rightarrow> Inr (curledFingers = 4))"

text \<open>
  \<^verbatim>\<open>checkGrip\<close> of \<^verbatim>\<open>index.tsx\<close> (the same code as in \<^verbatim>\<open>WebcamPreview\<close>): a finger is
  curled when its tip is closer to the wrist than its PIP joint, and three suffice.
\<close>

definition sqDist :: "Landmark \<Rightarrow> Landmark \<Rightarrow> real" where
  "sqDist a b = (px a - px b)\<^sup>2 + (py a - py b)\<^sup>2 + (pz a - pz b)\<^sup>2"

fun curlLoop_index ::
  "Landmark list \<Rightarrow> Landmark option \<Rightarrow> (nat \<times> nat) list \<Rightarrow> nat \<Rightarrow> error + nat" where
  "curlLoop_index lms wrist [] curledFingers = Inr curledFingers"
| "curlLoop_index lms wrist ((tipI, pipI) # fingers) curledFingers =
     (case lookup lms tipI of
        None \<Rightarrow> Inl TypeError
      | Some tip \<Rightarrow>
          (case wrist of
             None \<Rightarrow> Inl TypeError
           | Some w \<Rightarrow>
               (case lookup lms pipI of
                  None \<Rightarrow> Inl TypeError
                | Some pip \<Rightarrow>
                    (let dTip = sqDist tip w; dPip = sqDist pip w
                     in curlLoop_index lms wrist fingers
                          (if dTip < dPip then curledFingers + 1 else curledFingers)))))"

definition checkGrip_index :: "Landmark list \<Rightarrow> error + bool" where
  "checkGrip_index lms =
     (case curlLoop_index lms (lookup lms 0) fingerJoints 0 of
        Inl e \<Rightarrow> Inl e
      | Inr curledFingers \<Rightarrow> Inr (curledFingers \<ge> 3))"

text \<open>
  \<^verbatim>\<open>processResults\<close>. The local variables \<^verbatim>\<open>newLeft\<close>, \<^verbatim>\<open>newRight\<close>, \<^verbatim>\<open>leftGrip\<close>,
  \<^verbatim>\<open>rightGrip\<close> of the detection loop:
\<close>

record Detected =
  newLeft :: "Vector3 option"
  newRight :: "Vector3 option"
  leftGrip :: bool
  rightGrip :: bool

definition noDetection :: Detected where
  "noDetection = \<lparr>newLeft = None, newRight = None, leftGrip = False, rightGrip = False\<rparr>"

text \<open>\<^verbatim>\<open>results.handedness[i][0]\<close> behind its three guards.\<close>

definition classification :: "Category list list option \<Rightarrow> nat \<Rightarrow> Category option" where
  "classification hs i =
     (case hs of
        None \<Rightarrow> None
      | Some h \<Rightarrow> (case lookup h i of None \<Rightarrow> None | Some cs \<Rightarrow> lookup cs 0))"

text \<open>
  The loop \<^verbatim>\<open>for (let i = 0; i < results.landmarks.length; i++)\<close>, over the remaining
  detections from index \<open>i\<close>. The grip classifier is a parameter, since the two builds
  differ in nothing else.
\<close>

fun detectLoop ::
  "(Landmark list \<Rightarrow> error + bool) \<Rightarrow> Category list list option \<Rightarrow> Landmark list list \<Rightarrow> nat \<Rightarrow>
   Detected \<Rightarrow> error + Detected" where
  "detectLoop grip hs [] i d = Inr d"
| "detectLoop grip hs (lms # rest) i d =
     (case classification hs i of
        None \<Rightarrow> detectLoop grip hs rest (i + 1) d
      | Some c \<Rightarrow>
          (let isRight = (categoryName c = ''Right'') in
           case lookup lms 8 of
             None \<Rightarrow> Inl TypeError
           | Some tip \<Rightarrow>
               (let worldPos = mapHandToWorld (px tip) (py tip) in
                case grip lms of
                  Inl e \<Rightarrow> Inl e
                | Inr isGripping \<Rightarrow>
                    detectLoop grip hs rest (i + 1)
                      (if isRight then d\<lparr>newRight := Some worldPos, rightGrip := isGripping\<rparr>
                       else d\<lparr>newLeft := Some worldPos, leftGrip := isGripping\<rparr>))))"

definition LERP :: real where "LERP = 0.6"

definition updateLeft :: "real \<Rightarrow> Detected \<Rightarrow> HandPositions \<Rightarrow> HandPositions" where
  "updateLeft deltaTime d s =
     (case newLeft d of
        Some raw \<Rightarrow>
          (let new = (case left s of Some old \<Rightarrow> lerpVectors old raw LERP | None \<Rightarrow> raw);
               vel = (case left s of
                        Some old \<Rightarrow>
                          if deltaTime > 0.001 then divideScalar (subVectors new old) deltaTime
                          else leftVelocity s
                      | None \<Rightarrow> leftVelocity s)
           in s\<lparr>leftVelocity := vel,
                lastLeft := Some (case left s of Some old \<Rightarrow> old | None \<Rightarrow> new),
                left := Some new,
                leftGripping := leftGrip d\<rparr>)
      | None \<Rightarrow> s\<lparr>left := None, leftGripping := False\<rparr>)"

definition updateRight :: "real \<Rightarrow> Detected \<Rightarrow> HandPositions \<Rightarrow> HandPositions" where
  "updateRight deltaTime d s =
     (case newRight d of
        Some raw \<Rightarrow>
          (let new = (case right s of Some old \<Rightarrow> lerpVectors old raw LERP | None \<Rightarrow> raw);
               vel = (case right s of
                        Some old \<Rightarrow>
                          if deltaTime > 0.001 then divideScalar (subVectors new old) deltaTime
                          else rightVelocity s
                      | None \<Rightarrow> rightVelocity s)
           in s\<lparr>rightVelocity := vel,
                lastRight := Some (case right s of Some old \<Rightarrow> old | None \<Rightarrow> new),
                right := Some new,
                rightGripping := rightGrip d\<rparr>)
      | None \<Rightarrow> s\<lparr>right := None, rightGripping := False\<rparr>)"

text \<open>\<open>now\<close> is the value of \<^verbatim>\<open>performance.now()\<close>, in milliseconds.\<close>

definition processResultsWith ::
  "(Landmark list \<Rightarrow> error + bool) \<Rightarrow> real \<Rightarrow> HandLandmarkerResult \<Rightarrow> HandPositions \<Rightarrow>
   error + HandPositions" where
  "processResultsWith grip now results s =
     (let deltaTime = (now - lastTimestamp s) / 1000;
          s0 = s\<lparr>lastTimestamp := now\<rparr>
      in case (case landmarks results of
                 None \<Rightarrow> Inr noDetection
               | Some ls \<Rightarrow> detectLoop grip (handedness results) ls 0 noDetection) of
           Inl e \<Rightarrow> Inl e
         | Inr d \<Rightarrow> Inr (updateRight deltaTime d (updateLeft deltaTime d s0)))"

definition processResults ::
  "real \<Rightarrow> HandLandmarkerResult \<Rightarrow> HandPositions \<Rightarrow> error + HandPositions" where
  "processResults = processResultsWith checkGrip"

definition processResults_index ::
  "real \<Rightarrow> HandLandmarkerResult \<Rightarrow> HandPositions \<Rightarrow> error + HandPositions" where
  "processResults_index = processResultsWith checkGrip_index"

text \<open>
  \<^verbatim>\<open>predictWebcam\<close> calls \<^verbatim>\<open>processResults\<close> inside \<^verbatim>\<open>try\<close>/\<^verbatim>\<open>catch\<close>: when it throws, only
  the time stamp, written before the loop, has changed. The detection itself is the
  landmarker's; its result is an argument here.
\<close>

definition predictWebcam ::
  "(Landmark list \<Rightarrow> error + bool) \<Rightarrow> real \<Rightarrow> HandLandmarkerResult \<Rightarrow> HandPositions \<Rightarrow>
   HandPositions" where
  "predictWebcam grip now results s =
     (case processResultsWith grip now results s of
        Inl e \<Rightarrow> s\<lparr>lastTimestamp := now\<rparr>
      | Inr s' \<Rightarrow> s')"

text \<open>The hand sides for which a result holds a detection the loop does not skip.\<close>

definition sideOf :: "Category \<Rightarrow> HandType" where
  "sideOf c = (if categoryName c = ''Right'' then RightHand else LeftHand)"

fun detectedSides :: "Category list list option \<Rightarrow> Landmark list list \<Rightarrow> nat \<Rightarrow> HandType list" where
  "detectedSides hs [] i = []"
| "detectedSides hs (lms # rest) i =
     (case classification hs i of
        None \<Rightarrow> detectedSides hs rest (i + 1)
      | Some c \<Rightarrow> sideOf c # detectedSides hs rest (i + 1))"

definition detects :: "HandLandmarkerResult \<Rightarrow> HandType \<Rightarrow> bool" where
  "detects results side \<longleftrightarrow>
     (case landmarks results of
        None \<Rightarrow> False
      | Some ls \<Rightarrow> side \<in> set (detectedSides (handedness results) ls 0))"

text \<open>Sample frames: a hand of 21 coinciding landmarks, seen as a left or as a right hand, and
  a result with no hand.\<close>

definition flatHand :: "real \<Rightarrow> real \<Rightarrow> Landmark list" where
  "flatHand x y = replicate 21 \<lparr>px = x, py = y, pz = 0\<rparr>"

definition leftFrame :: "real \<Rightarrow> real \<Rightarrow> HandLandmarkerResult" where
  "leftFrame x y = \<lparr>landmarks = Some [flatHand x y],
     handedness = Some [[\<lparr>categoryName = ''Left''\<rparr>]]\<rparr>"

definition rightFrame :: "real \<Rightarrow> real \<Rightarrow> HandLandmarkerResult" where
  "rightFrame x y = \<lparr>landmarks = Some [flatHand x y],
     handedness = Some [[\<lparr>categoryName = ''Right''\<rparr>]]\<rparr>"

definition emptyFrame :: HandLandmarkerResult where
  "emptyFrame = \<lparr>landmarks = Some [], handedness = Some []\<rparr>"

text \<open>A hand whose index finger is stretched and whose other three fingers are curled.\<close>

definition pointingHand :: "Landmark list" where
  "pointingHand = (flatHand 0.5 0.5)
     [12 := \<lparr>px = 0.5, py = 0.6, pz = 0\<rparr>,
      16 := \<lparr>px = 0.5, py = 0.6, pz = 0\<rparr>,
      20 := \<lparr>px = 0.5, py = 0.6, pz = 0\<rparr>]"

text \<open>The hand state after the left hand was seen at two places, one second apart.\<close>

definition trackedHands :: HandPositions where
  "trackedHands =
     predictWebcam checkGrip 2000 (leftFrame 0.3 0.5)
       (predictWebcam checkGrip 1000 (leftFrame 0.5 0.5) initialHands)"

section \<open>The demo chart\<close>

text \<open>Template-literal formatting of a counter: the decimal digits of a natural number.\<close>

function toString :: "nat \<Rightarrow> string" where
  "toString n =
     (if n < 10 then [''0123456789'' ! n]
      else toString (n div 10) @ [''0123456789'' ! (n mod 10)])"
  by pat_completeness auto
termination
  by (relation "measure id") auto

declare toString.simps [simp del]

text \<open>
  A freshly generated note: \<^verbatim>\<open>hit\<close>, \<^verbatim>\<open>missed\<close> and \<^verbatim>\<open>hitTime\<close> are absent from the object
  literal, which reads as false and undefined; every generated note has direction ANY.
\<close>

definition newNote ::
  "nat \<Rightarrow> real \<Rightarrow> nat \<Rightarrow> nat \<Rightarrow> HandType \<Rightarrow> bool option \<Rightarrow> NoteData" where
  "newNote idCount t li ll ty grip =
     \<lparr>note_id = ''note-'' @ toString idCount, time = t, lineIndex = li, lineLayer = ll,
      note_type = ty, cutDirection = ANY, requiresGrip = grip,
      hit = False, missed = False, hitTime = None\<rparr>"

text \<open>
  \<^verbatim>\<open>Array.prototype.sort\<close> with the comparator \<^verbatim>\<open>(a, b) => a.time - b.time\<close> is a stable
  sort by ascending time; it is modelled by the stable insertion sort \<^const>\<open>sort_key\<close>.
\<close>

text \<open>
  \<^verbatim>\<open>index.tsx\<close>, \<^verbatim>\<open>generateDemoChart\<close>: the loop \<^verbatim>\<open>for (let i = 4; i < 200; i += 2)\<close> with
  its variables \<open>i\<close>, \<open>idCount\<close> and \<open>notes\<close>.
\<close>

function demoLoop_index :: "nat \<Rightarrow> nat \<Rightarrow> NoteData list \<Rightarrow> NoteData list" where
  "demoLoop_index i idCount notes =
     (if i < 200 then
        (let t = real i * BEAT_TIME;
             pattern = (i div 16) mod 3
         in if pattern = 0 then
              (if i mod 4 = 0 then
                 demoLoop_index (i + 2) (idCount + 1)
                   (notes @ [newNote idCount t 1 0 LeftHand None])
               else
                 demoLoop_index (i + 2) (idCount + 1)
                   (notes @ [newNote idCount t 2 0 RightHand None]))
            else if pattern = 1 then
              (if i mod 8 = 0 then
                 demoLoop_index (i + 2) (idCount + 2)
                   (notes @ [newNote idCount t 0 1 LeftHand None,
                             newNote (idCount + 1) t 3 1 RightHand None])
               else demoLoop_index (i + 2) idCount notes)
            else
              demoLoop_index (i + 2) (idCount + 2)
                (notes @ [newNote idCount t 1 0 LeftHand None,
                          newNote (idCount + 1) (t + BEAT_TIME) 2 0 RightHand None]))
      else notes)"
  by pat_completeness auto
termination
  by (relation "measure (\<lambda>(i, idCount, notes). 200 - i)") auto

declare demoLoop_index.simps [simp del]

definition generateDemoChart_index :: "NoteData list" where
  "generateDemoChart_index = sort_key time (demoLoop_index 4 0 [])"

text \<open>
  \<^verbatim>\<open>constants.ts\<close>, \<^verbatim>\<open>generateDemoChart\<close>: the loop \<^verbatim>\<open>for (let i = 12; i < totalBeats; i++)\<close>.
  \<^verbatim>\<open>Math.random()\<close> is a parameter: \<open>rnd n\<close> is the result of the \<open>n\<close>-th call, and the loop
  carries the number \<open>r\<close> of calls made so far.
\<close>

function demoLoop ::
  "(nat \<Rightarrow> real) \<Rightarrow> nat \<Rightarrow> nat \<Rightarrow> nat \<Rightarrow> NoteData list \<Rightarrow> NoteData list" where
  "demoLoop rnd i idCount r notes =
     (if i < 400 then
        (let t = real i * BEAT_TIME
         in if i mod 4 \<noteq> 0 then demoLoop rnd (i + 1) idCount r notes
            else if rnd r > 0.6 then demoLoop rnd (i + 1) idCount (r + 1) notes
            else
              (let ty = (if rnd (r + 1) > 0.5 then LeftHand else RightHand);
                   li = nat \<lfloor>rnd (r + 2) * 4\<rfloor>;
                   ll = nat \<lfloor>rnd (r + 3) * 3\<rfloor>
               in demoLoop rnd (i + 1) (idCount + 1) (r + 5)
                    (notes @ [newNote idCount t li ll ty (Some (rnd (r + 4) > 0.7))])))
      else notes)"
  by pat_completeness auto
termination
  by (relation "measure (\<lambda>(rnd, i, idCount, r, notes). 400 - i)") auto

declare demoLoop.simps [simp del]

definition generateDemoChart :: "(nat \<Rightarrow> real) \<Rightarrow> NoteData list" where
  "generateDemoChart rnd = sort_key time (demoLoop rnd 12 0 0 [])"

section \<open>Specification of one judgement pass\<close>

text \<open>
  The decision the loop body takes for one note, as a function of the note alone, and the
  invariant of the refs. The loop is related to them below.
\<close>

datatype Judgement = Pending | Missed | Struck bool

definition handPosOf :: "HandPositions \<Rightarrow> NoteData \<Rightarrow> Vector3 option" where
  "handPosOf hands note = (if note_type note = LeftHand then left hands else right hands)"

definition handVelOf :: "HandPositions \<Rightarrow> NoteData \<Rightarrow> Vector3" where
  "handVelOf hands note =
     (if note_type note = LeftHand then leftVelocity hands else rightVelocity hands)"

definition inWindow :: "real \<Rightarrow> bool" where
  "inWindow z \<longleftrightarrow> z > PLAYER_Z - 1.5 \<and> z < PLAYER_Z + 1.0"

definition touched :: "real \<Rightarrow> HandPositions \<Rightarrow> NoteData \<Rightarrow> bool" where
  "touched t hands note \<longleftrightarrow>
     (case handPosOf hands note of None \<Rightarrow> False
      | Some hp \<Rightarrow> withinReach hp note (currentZ t note))"

definition judge :: "real \<Rightarrow> HandPositions \<Rightarrow> NoteData \<Rightarrow> Judgement" where
  "judge t hands note =
     (if hit note \<or> missed note then Pending
      else if currentZ t note > MISS_Z then Missed
      else if inWindow (currentZ t note) \<and> touched t hands note
        then Struck (goodCut (handVelOf hands note) note)
      else Pending)"

fun applyJudgement :: "real \<Rightarrow> Judgement \<Rightarrow> NoteData \<Rightarrow> NoteData" where
  "applyJudgement t Pending note = note"
| "applyJudgement t Missed note = note\<lparr>missed := True\<rparr>"
| "applyJudgement t (Struck g) note = note\<lparr>hit := True, hitTime := Some t\<rparr>"

fun judgementEvents :: "NoteRef \<Rightarrow> Judgement \<Rightarrow> Event list" where
  "judgementEvents k Pending = []"
| "judgementEvents k Missed = [NoteMiss k]"
| "judgementEvents k (Struck g) = [NoteHit k g]"

definition resolveNote :: "real \<Rightarrow> HandPositions \<Rightarrow> NoteData \<Rightarrow> NoteData" where
  "resolveNote t hands note = applyJudgement t (judge t hands note) note"

definition wellFormed :: "GameSceneState \<Rightarrow> bool" where
  "wellFormed s \<longleftrightarrow>
     sorted_wrt (<) (activeNotes s) \<and>
     (\<forall>k\<in>set (activeNotes s). k < nextNoteIndex s) \<and>
     nextNoteIndex s \<le> length (notesState s)"

text \<open>Scenario data: one left-hand note at 2 s in lane 1, layer 0, and a left hand on it.\<close>

definition scenarioNote :: NoteData where
  "scenarioNote = \<lparr>note_id = ''note-0'', time = 2, lineIndex = 1, lineLayer = 0,
     note_type = LeftHand, cutDirection = ANY, requiresGrip = None,
     hit = False, missed = False, hitTime = None\<rparr>"

definition scenarioHands :: HandPositions where
  "scenarioHands = initialHands\<lparr>left := Some \<lparr>vx = -0.4, vy = 0.8, vz = 0\<rparr>,
     leftVelocity := \<lparr>vx = 0, vy = 2, vz = 0\<rparr>\<rparr>"

text \<open>The notes the hit and miss callbacks of an event list refer to, in order.\<close>

fun noteRefs :: "Event list \<Rightarrow> NoteRef list" where
  "noteRefs [] = []"
| "noteRefs (NoteHit k g # es) = k # noteRefs es"
| "noteRefs (NoteMiss k # es) = k # noteRefs es"
| "noteRefs (SongEnd # es) = noteRefs es"

definition lateChart :: "NoteData list" where
  "lateChart = [scenarioNote\<lparr>time := 1\<rparr>, scenarioNote\<lparr>note_id := ''note-1'', time := 2\<rparr>]"

text \<open>Whether a callback is the hit or miss callback of note \<open>j\<close>.\<close>

fun concerns :: "NoteRef \<Rightarrow> Event \<Rightarrow> bool" where
  "concerns j (NoteHit k g) = (k = j)"
| "concerns j (NoteMiss k) = (k = j)"
| "concerns j SongEnd = False"

section \<open>A rendered frame of the whole application\<close>

text \<open>
  \<^verbatim>\<open>App\<close> renders \<^verbatim>\<open>GameScene\<close> with its \<^verbatim>\<open>gameStatus\<close> and its callbacks. In one frame the
  \<^verbatim>\<open>useFrame\<close> callback runs with the status of the last render and invokes the callbacks
  synchronously, in order; the timeouts they queue run after the frame, before the next.
  The step is parametrised by the callbacks, \<^const>\<open>reduce\<close> or \<^const>\<open>reduce_index\<close>.
\<close>

definition sessionFrame ::
  "(AppState \<Rightarrow> Event \<Rightarrow> AppState) \<Rightarrow> Audio option \<Rightarrow> HandPositions \<Rightarrow>
   AppState \<times> GameSceneState \<Rightarrow> AppState \<times> GameSceneState" where
  "sessionFrame callbacks audio hands st =
     (let r = useFrame (gameStatus (fst st)) audio hands (snd st)
      in (runTimeouts (foldl callbacks (fst st) (snd r)), fst r))"

text \<open>Eight notes at 1 s, for a frame that comes late.\<close>

definition missChart :: "NoteData list" where
  "missChart = map (\<lambda>i. newNote i 1 1 0 LeftHand None) [0..<8]"

text \<open>Invariant of a frame's callbacks in \<^verbatim>\<open>index.tsx\<close>: health 0 comes with a queued call.\<close>

definition queued :: "AppState \<Rightarrow> bool" where
  "queued s \<longleftrightarrow> 0 \<le> health s \<and> set (pendingTimeouts s) \<subseteq> {False} \<and>
     (health s = 0 \<longrightarrow> pendingTimeouts s \<noteq> [])"

text \<open>Invariant of both reducers: bounds on health, score and multiplier.\<close>

definition bounded :: "AppState \<Rightarrow> bool" where
  "bounded s \<longleftrightarrow> 0 \<le> health s \<and> health s \<le> 100 \<and> 0 \<le> score s \<and> 0 < multiplier s"

text \<open>The curl test of each classifier for one (tip, PIP) pair of landmark indices.\<close>

definition curled :: "Landmark list \<Rightarrow> nat \<times> nat \<Rightarrow> bool" where
  "curled lms f \<longleftrightarrow> py (lms ! fst f) > py (lms ! snd f) + 0.02"

definition curled_index :: "Landmark list \<Rightarrow> nat \<times> nat \<Rightarrow> bool" where
  "curled_index lms f \<longleftrightarrow> sqDist (lms ! fst f) (lms ! 0) < sqDist (lms ! snd f) (lms ! 0)"

section \<open>Properties of the score reducer\<close>

lemma comboMultiplier_pos: "0 < comboMultiplier c"
  by (simp add: comboMultiplier_def)

text \<open>The modular reducer resets and penalises on a bad hit and on a miss.\<close>

lemma handleNoteHit_bad:
  "combo (handleNoteHit note False s) = 0"
  "multiplier (handleNoteHit note False s) = 1"
  "score (handleNoteHit note False s) = max 0 (score s - 50)"
  "health (handleNoteHit note False s) = max 0 (health s - 5)"
  by (simp_all add: handleNoteHit_def)

lemma handleNoteMiss_penalty:
  "combo (handleNoteMiss note s) = 0"
  "multiplier (handleNoteMiss note s) = 1"
  "score (handleNoteMiss note s) = max 0 (score s - 50)"
  "health (handleNoteMiss note s) = max 0 (health s - 15)"
  by (simp_all add: handleNoteMiss_def Let_def)

text \<open>
  C2. A bad hit and a miss must reset combo and multiplier, subtract a clamped score
  penalty and a clamped health penalty. The reducer of \<^verbatim>\<open>index.tsx\<close> does not: from the
  initial state a bad hit raises the combo to 1 and the score to 100 and leaves the health
  at 100, and a miss after it leaves the score at 100.
\<close>

theorem C2_index_bad_hit_scores:
  "combo (handleNoteHit_index 0 False initialApp) = 1 \<and>
   score (handleNoteHit_index 0 False initialApp) = 100 \<and>
   health (handleNoteHit_index 0 False initialApp) = 100 \<and>
   score (handleNoteMiss_index 0
            (handleNoteHit_index 0 False initialApp)) = 100"
  by (simp add: handleNoteHit_index_def handleNoteMiss_index_def initialApp_def
      comboMultiplier_def)

lemma bounded_initialApp: "bounded initialApp"
  by (simp add: bounded_def initialApp_def)

lemma bounded_reduce: "bounded s \<Longrightarrow> bounded (reduce s e)"
  by (cases e)
    (auto simp: bounded_def handleNoteHit_def handleNoteMiss_def endGame_def Let_def
      comboMultiplier_pos)

lemma bounded_reduce_index: "bounded s \<Longrightarrow> bounded (reduce_index s e)"
  by (cases e)
    (auto simp: bounded_def handleNoteHit_index_def handleNoteMiss_index_def endGame_def
      Let_def comboMultiplier_pos)

lemma bounded_foldl_reduce: "bounded s \<Longrightarrow> bounded (foldl reduce s es)"
  by (induction es arbitrary: s) (simp_all add: bounded_reduce)

lemma bounded_foldl_reduce_index: "bounded s \<Longrightarrow> bounded (foldl reduce_index s es)"
  by (induction es arbitrary: s) (simp_all add: bounded_reduce_index)

text \<open>
  C6. After any sequence of events from the initial session state, health
  lies in [0, 100] and the score is at least 0; this holds for the reducer of either
  build, and since the sequence is arbitrary, after every step of it.
\<close>

theorem C6_health_score_clamped:
  "0 \<le> health (foldl reduce initialApp es) \<and> health (foldl reduce initialApp es) \<le> 100 \<and>
   0 \<le> score (foldl reduce initialApp es) \<and>
   0 \<le> health (foldl reduce_index initialApp es) \<and>
   health (foldl reduce_index initialApp es) \<le> 100 \<and>
   0 \<le> score (foldl reduce_index initialApp es)"
  using bounded_foldl_reduce [OF bounded_initialApp, of es]
    bounded_foldl_reduce_index [OF bounded_initialApp, of es]
  by (simp add: bounded_def)

section \<open>The activation loop\<close>

lemma activateNotes_notes [simp]: "notesState (activateNotes t s) = notesState s"
  by (induction t s rule: activateNotes.induct)
     (subst activateNotes.simps, simp add: Let_def)

lemma activateNotes_mono: "nextNoteIndex s \<le> nextNoteIndex (activateNotes t s)"
proof (induction t s rule: activateNotes.induct)
  case (1 t s)
  show ?case
    using 1 by (subst activateNotes.simps) (auto simp: Let_def dest: Suc_leD)
qed

lemma activateNotes_bound:
  "nextNoteIndex s \<le> length (notesState s) \<Longrightarrow>
   nextNoteIndex (activateNotes t s) \<le> length (notesState s)"
proof (induction t s rule: activateNotes.induct)
  case (1 t s)
  show ?case
    using 1 by (subst activateNotes.simps) (auto simp: Let_def)
qed

lemma activateNotes_active:
  "activeNotes (activateNotes t s) =
   activeNotes s @ [nextNoteIndex s ..< nextNoteIndex (activateNotes t s)]"
proof (induction t s rule: activateNotes.induct)
  case (1 t s)
  show ?case
  proof (cases "nextNoteIndex s < length (notesState s) \<and>
      time (notesState s ! nextNoteIndex s) - spawnAheadTime \<le> t")
    case True
    let ?s1 = "s\<lparr>activeNotes := activeNotes s @ [nextNoteIndex s],
                nextNoteIndex := Suc (nextNoteIndex s)\<rparr>"
    have eq: "activateNotes t s = activateNotes t ?s1"
      using True by (subst activateNotes.simps) (simp add: Let_def)
    have le: "Suc (nextNoteIndex s) \<le> nextNoteIndex (activateNotes t ?s1)"
      using activateNotes_mono [of ?s1 t] by simp
    have "activeNotes (activateNotes t ?s1) =
        activeNotes ?s1 @ [nextNoteIndex ?s1 ..< nextNoteIndex (activateNotes t ?s1)]"
      using 1 True by simp
    then show ?thesis
      using le by (simp add: eq upt_conv_Cons)
  next
    case False
    then have "activateNotes t s = s"
      by (subst activateNotes.simps) (auto simp: Let_def)
    then show ?thesis by simp
  qed
qed

lemma activateNotes_due:
  "nextNoteIndex s \<le> k \<Longrightarrow> k < nextNoteIndex (activateNotes t s) \<Longrightarrow>
   k < length (notesState s) \<and> time (notesState s ! k) - spawnAheadTime \<le> t"
proof (induction t s rule: activateNotes.induct)
  case (1 t s)
  show ?case
  proof (cases "nextNoteIndex s < length (notesState s) \<and>
      time (notesState s ! nextNoteIndex s) - spawnAheadTime \<le> t")
    case True
    let ?s1 = "s\<lparr>activeNotes := activeNotes s @ [nextNoteIndex s],
                nextNoteIndex := Suc (nextNoteIndex s)\<rparr>"
    have eq: "activateNotes t s = activateNotes t ?s1"
      using True by (subst activateNotes.simps) (simp add: Let_def)
    show ?thesis
    proof (cases "k = nextNoteIndex s")
      case True
      then show ?thesis using \<open>_ \<and> _\<close> by simp
    next
      case False
      then have "nextNoteIndex ?s1 \<le> k" using "1.prems" by simp
      moreover have "k < nextNoteIndex (activateNotes t ?s1)" using "1.prems" eq by simp
      ultimately show ?thesis using "1.IH" True by simp
    qed
  next
    case False
    then have "activateNotes t s = s"
      by (subst activateNotes.simps) (auto simp: Let_def)
    then show ?thesis using "1.prems" by simp
  qed
qed

lemma activateNotes_stop:
  "nextNoteIndex (activateNotes t s) < length (notesState s) \<Longrightarrow>
   \<not> time (notesState s ! nextNoteIndex (activateNotes t s)) - spawnAheadTime \<le> t"
proof (induction t s rule: activateNotes.induct)
  case (1 t s)
  show ?case
  proof (cases "nextNoteIndex s < length (notesState s) \<and>
      time (notesState s ! nextNoteIndex s) - spawnAheadTime \<le> t")
    case True
    let ?s1 = "s\<lparr>activeNotes := activeNotes s @ [nextNoteIndex s],
                nextNoteIndex := Suc (nextNoteIndex s)\<rparr>"
    have eq: "activateNotes t s = activateNotes t ?s1"
      using True by (subst activateNotes.simps) (simp add: Let_def)
    show ?thesis using "1.IH" True "1.prems" eq by simp
  next
    case False
    then have "activateNotes t s = s"
      by (subst activateNotes.simps) (auto simp: Let_def)
    then show ?thesis using "1.prems" False by simp
  qed
qed

section \<open>The judgement loop\<close>

lemma judgeAt_judge:
  "judgeAt t hands i (s, evs) =
     (let k = activeNotes s ! i; note = notesState s ! k; j = judge t hands note
      in if j = Pending then (s, evs)
         else (s\<lparr>notesState := (notesState s)[k := applyJudgement t j note],
                 activeNotes := splice1 i (activeNotes s)\<rparr>,
               evs @ judgementEvents k j))"
  by (simp add: judgeAt_def judge_def Let_def inWindow_def touched_def handPosOf_def
      handVelOf_def split: option.splits)

lemma nth_notin_take: "distinct xs \<Longrightarrow> n < length xs \<Longrightarrow> xs ! n \<notin> set (take n xs)"
  by (auto simp: in_set_conv_nth nth_eq_iff_index_eq)

lemma splice1_props:
  assumes "n < length xs"
  shows "take n (splice1 n xs) = take n xs"
    and "drop n (splice1 n xs) = drop (Suc n) xs"
    and "n \<le> length (splice1 n xs)"
    and "set (splice1 n xs) \<subseteq> set xs"
    and "distinct xs \<Longrightarrow> distinct (splice1 n xs)"
proof -
  show "take n (splice1 n xs) = take n xs" using assms by (simp add: splice1_def)
  show "drop n (splice1 n xs) = drop (Suc n) xs" using assms by (simp add: splice1_def)
  show "n \<le> length (splice1 n xs)" using assms by (simp add: splice1_def)
  show "set (splice1 n xs) \<subseteq> set xs"
    by (auto simp: splice1_def dest: in_set_takeD in_set_dropD)
  show "distinct xs \<Longrightarrow> distinct (splice1 n xs)"
  proof -
    assume d: "distinct xs"
    have "xs = take n xs @ drop n xs" by simp
    moreover have "set (drop (Suc n) xs) \<subseteq> set (drop n xs)"
      by (simp add: set_drop_subset_set_drop)
    ultimately show ?thesis
      using d unfolding splice1_def
      by (metis distinct_append distinct_drop distinct_take disjoint_iff subsetD)
  qed
qed

lemma judgeLoop_spec:
  assumes "distinct (activeNotes s)"
    and "\<forall>k\<in>set (activeNotes s). k < length (notesState s)"
    and "n \<le> length (activeNotes s)"
  shows "\<exists>s'. judgeLoop t hands n (s, evs) =
      (s', evs @ concat (map (\<lambda>k. judgementEvents k (judge t hands (notesState s ! k)))
                     (rev (take n (activeNotes s))))) \<and>
    nextNoteIndex s' = nextNoteIndex s \<and>
    length (notesState s') = length (notesState s) \<and>
    (\<forall>j<length (notesState s). notesState s' ! j =
       (if j \<in> set (take n (activeNotes s)) then resolveNote t hands (notesState s ! j)
        else notesState s ! j)) \<and>
    activeNotes s' =
      filter (\<lambda>k. judge t hands (notesState s ! k) = Pending) (take n (activeNotes s))
      @ drop n (activeNotes s)"
  using assms
proof (induction n arbitrary: s evs)
  case 0
  then show ?case by simp
next
  case (Suc n)
  let ?A = "activeNotes s" and ?N = "notesState s"
  let ?k = "?A ! n"
  let ?j = "judge t hands (?N ! ?k)"
  let ?E = "\<lambda>N k. judgementEvents k (judge t hands (N ! k))"
  let ?P = "\<lambda>N k. judge t hands (N ! k) = Pending"
  have n: "n < length ?A" using Suc.prems by simp
  have kA: "?k \<in> set ?A" using n by simp
  have k: "?k < length ?N" using Suc.prems kA by blast
  have knot: "?k \<notin> set (take n ?A)"
    using Suc.prems(1) n by (rule nth_notin_take)
  have tk: "take (Suc n) ?A = take n ?A @ [?k]"
    using n by (simp add: take_Suc_conv_app_nth)
  have dr: "drop n ?A = ?k # drop (Suc n) ?A"
    using n by (simp add: Cons_nth_drop_Suc)
  show ?case
  proof (cases "?j = Pending")
    case True
    have step: "judgeAt t hands n (s, evs) = (s, evs)"
      using True by (simp add: judgeAt_judge Let_def)
    from Suc.IH [of s evs] Suc.prems
    obtain s' where
      run: "judgeLoop t hands n (s, evs) = (s', evs @ concat (map (?E ?N) (rev (take n ?A))))"
      and idx: "nextNoteIndex s' = nextNoteIndex s"
      and len: "length (notesState s') = length ?N"
      and nts: "\<forall>j<length ?N. notesState s' ! j =
         (if j \<in> set (take n ?A) then resolveNote t hands (?N ! j) else ?N ! j)"
      and act: "activeNotes s' = filter (?P ?N) (take n ?A) @ drop n ?A"
      by auto
    have "judgeLoop t hands (Suc n) (s, evs) =
        (s', evs @ concat (map (?E ?N) (rev (take (Suc n) ?A))))"
      using run step True by (simp add: tk)
    moreover have "\<forall>j<length ?N. notesState s' ! j =
         (if j \<in> set (take (Suc n) ?A) then resolveNote t hands (?N ! j) else ?N ! j)"
      using nts True by (auto simp: tk resolveNote_def)
    moreover have "activeNotes s' = filter (?P ?N) (take (Suc n) ?A) @ drop (Suc n) ?A"
      using act True by (simp add: tk dr)
    ultimately show ?thesis using idx len by blast
  next
    case False
    let ?N1 = "?N[?k := applyJudgement t ?j (?N ! ?k)]"
    let ?s1 = "s\<lparr>notesState := ?N1, activeNotes := splice1 n ?A\<rparr>"
    let ?evs1 = "evs @ judgementEvents ?k ?j"
    have step: "judgeAt t hands n (s, evs) = (?s1, ?evs1)"
      using False by (simp add: judgeAt_judge Let_def)
    have same: "\<And>j. j \<in> set (take n ?A) \<Longrightarrow> ?N1 ! j = ?N ! j"
      using knot by (metis nth_list_update_neq)
    have p1: "distinct (activeNotes ?s1)"
      using splice1_props(5) [OF n] Suc.prems(1) by simp
    have p2: "\<forall>k\<in>set (activeNotes ?s1). k < length (notesState ?s1)"
      using splice1_props(4) [OF n] Suc.prems(2) by auto
    have p3: "n \<le> length (activeNotes ?s1)"
      using splice1_props(3) [OF n] by simp
    from Suc.IH [OF p1 p2 p3, of ?evs1]
    obtain s' where
      run: "judgeLoop t hands n (?s1, ?evs1) =
          (s', ?evs1 @ concat (map (?E ?N1) (rev (take n (splice1 n ?A)))))"
      and idx: "nextNoteIndex s' = nextNoteIndex s"
      and len: "length (notesState s') = length ?N"
      and nts: "\<forall>j<length ?N. notesState s' ! j =
         (if j \<in> set (take n (splice1 n ?A)) then resolveNote t hands (?N1 ! j) else ?N1 ! j)"
      and act: "activeNotes s' = filter (?P ?N1) (take n (splice1 n ?A)) @ drop n (splice1 n ?A)"
      by auto
    have ev_eq: "map (?E ?N1) (rev (take n ?A)) = map (?E ?N) (rev (take n ?A))"
      by (rule map_cong) (simp_all add: same)
    have fl_eq: "filter (?P ?N1) (take n ?A) = filter (?P ?N) (take n ?A)"
      by (rule filter_cong) (simp_all add: same)
    have "judgeLoop t hands (Suc n) (s, evs) =
        (s', evs @ concat (map (?E ?N) (rev (take (Suc n) ?A))))"
      using run step ev_eq by (simp add: tk splice1_props(1) [OF n])
    moreover have "\<forall>j<length ?N. notesState s' ! j =
         (if j \<in> set (take (Suc n) ?A) then resolveNote t hands (?N ! j) else ?N ! j)"
    proof (intro allI impI)
      fix j assume j: "j < length ?N"
      show "notesState s' ! j =
         (if j \<in> set (take (Suc n) ?A) then resolveNote t hands (?N ! j) else ?N ! j)"
      proof (cases "j = ?k")
        case True
        then show ?thesis
          using nts j knot k by (simp add: tk splice1_props(1) [OF n] resolveNote_def)
      next
        case False
        then show ?thesis
          using nts j same by (simp add: tk splice1_props(1) [OF n])
      qed
    qed
    moreover have "activeNotes s' = filter (?P ?N) (take (Suc n) ?A) @ drop (Suc n) ?A"
      using act False fl_eq by (simp add: tk splice1_props(1,2) [OF n])
    ultimately show ?thesis using idx len by blast
  qed
qed

lemma wellFormed_initialScene: "wellFormed (initialScene chart)"
  by (simp add: wellFormed_def initialScene_def)

lemma wellFormed_activateNotes:
  assumes "wellFormed s"
  shows "wellFormed (activateNotes t s)"
proof -
  let ?c = "nextNoteIndex s" and ?c' = "nextNoteIndex (activateNotes t s)"
  have act: "activeNotes (activateNotes t s) = activeNotes s @ [?c ..< ?c']"
    by (rule activateNotes_active)
  have "sorted_wrt (<) (activeNotes s @ [?c ..< ?c'])"
    using assms by (auto simp: wellFormed_def sorted_wrt_append)
  moreover have "\<forall>k\<in>set (activeNotes s @ [?c ..< ?c']). k < ?c'"
    using assms activateNotes_mono [of s t] by (auto simp: wellFormed_def)
  moreover have "?c' \<le> length (notesState (activateNotes t s))"
    using assms activateNotes_bound [of s t] by (simp add: wellFormed_def)
  ultimately show ?thesis by (simp add: wellFormed_def act)
qed

lemma wellFormed_distinct: "wellFormed s \<Longrightarrow> distinct (activeNotes s)"
  by (simp add: wellFormed_def strict_sorted_iff)

lemma useFrame_spec:
  assumes wf: "wellFormed s" and ne: "\<not> ended a"
  shows "\<exists>s'. useFrame PLAYING (Some a) hands s =
      (s', concat (map (\<lambda>k. judgementEvents k (judge (currentTime a) hands (notesState s ! k)))
                     (rev (activeNotes (activateNotes (currentTime a) s))))) \<and>
    nextNoteIndex s' = nextNoteIndex (activateNotes (currentTime a) s) \<and>
    length (notesState s') = length (notesState s) \<and>
    (\<forall>j<length (notesState s). notesState s' ! j =
       (if j \<in> set (activeNotes (activateNotes (currentTime a) s))
        then resolveNote (currentTime a) hands (notesState s ! j)
        else notesState s ! j)) \<and>
    activeNotes s' =
      filter (\<lambda>k. judge (currentTime a) hands (notesState s ! k) = Pending)
        (activeNotes (activateNotes (currentTime a) s))"
proof -
  let ?t = "currentTime a"
  let ?s1 = "activateNotes ?t s"
  have wf1: "wellFormed ?s1" using wf by (rule wellFormed_activateNotes)
  have d: "distinct (activeNotes ?s1)" using wf1 by (rule wellFormed_distinct)
  have v: "\<forall>k\<in>set (activeNotes ?s1). k < length (notesState ?s1)"
    using wf1 by (auto simp: wellFormed_def)
  have uf: "useFrame PLAYING (Some a) hands s =
      judgeLoop ?t hands (length (activeNotes ?s1)) (?s1, [])"
    using ne by (simp add: useFrame_def Let_def)
  have "take (length (activeNotes ?s1)) (activeNotes ?s1) = activeNotes ?s1"
       "drop (length (activeNotes ?s1)) (activeNotes ?s1) = []"
       "notesState ?s1 = notesState s"
    by simp_all
  with judgeLoop_spec [OF d v le_refl, of ?t hands "[]"]
  show ?thesis unfolding uf by (simp only: append_Nil append_Nil2)
qed

lemma time_resolveNote [simp]: "time (resolveNote t hands note) = time note"
  by (cases "judge t hands note") (simp_all add: resolveNote_def)

lemma wellFormed_useFrame:
  assumes "wellFormed s"
  shows "wellFormed (fst (useFrame status audio hands s))"
proof (cases "status = PLAYING \<and> (\<exists>a. audio = Some a \<and> \<not> ended a)")
  case True
  then obtain a where a: "audio = Some a" "\<not> ended a" "status = PLAYING" by blast
  let ?s1 = "activateNotes (currentTime a) s"
  have wf1: "wellFormed ?s1" using assms by (rule wellFormed_activateNotes)
  from useFrame_spec [OF assms a(2), of hands]
  obtain s' where s': "useFrame PLAYING (Some a) hands s = (s', snd (useFrame PLAYING (Some a) hands s))"
    and idx: "nextNoteIndex s' = nextNoteIndex ?s1"
    and len: "length (notesState s') = length (notesState s)"
    and act: "activeNotes s' =
      filter (\<lambda>k. judge (currentTime a) hands (notesState s ! k) = Pending) (activeNotes ?s1)"
    by auto
  have "wellFormed s'"
    using wf1 by (auto simp: wellFormed_def idx len act sorted_wrt_filter)
  then show ?thesis using s' a by (metis fst_conv)
next
  case False
  then have "fst (useFrame status audio hands s) = s"
    by (auto simp: useFrame_def split: option.splits)
  then show ?thesis using assms by simp
qed

lemma times_useFrame:
  assumes "wellFormed s"
  shows "map time (notesState (fst (useFrame status audio hands s))) = map time (notesState s)"
proof (cases "status = PLAYING \<and> (\<exists>a. audio = Some a \<and> \<not> ended a)")
  case True
  then obtain a where a: "audio = Some a" "\<not> ended a" "status = PLAYING" by blast
  from useFrame_spec [OF assms a(2), of hands]
  obtain s' where s': "useFrame PLAYING (Some a) hands s = (s', snd (useFrame PLAYING (Some a) hands s))"
    and len: "length (notesState s') = length (notesState s)"
    and nts: "\<forall>j<length (notesState s). notesState s' ! j =
       (if j \<in> set (activeNotes (activateNotes (currentTime a) s))
        then resolveNote (currentTime a) hands (notesState s ! j)
        else notesState s ! j)"
    by auto
  have "map time (notesState s') = map time (notesState s)"
    by (rule nth_equalityI) (simp_all add: len nts)
  then show ?thesis using s' a by (metis fst_conv)
next
  case False
  then have "fst (useFrame status audio hands s) = s"
    by (auto simp: useFrame_def split: option.splits)
  then show ?thesis by simp
qed

section \<open>Hit judgement\<close>

lemma hit_resolveNote:
  "\<not> hit note \<Longrightarrow> \<not> missed note \<Longrightarrow>
   hit (resolveNote t hands note) \<longleftrightarrow> inWindow (currentZ t note) \<and> touched t hands note"
  by (auto simp: resolveNote_def judge_def inWindow_def MISS_Z_def PLAYER_Z_def)

lemma NoteHit_in_events:
  "NoteHit k g \<in> set (concat (map (\<lambda>k. judgementEvents k (J k)) xs)) \<longleftrightarrow>
   k \<in> set xs \<and> J k = Struck g"
proof (induction xs)
  case Nil
  then show ?case by simp
next
  case (Cons x xs)
  then show ?case by (cases "J x") auto
qed

lemma touched_iff:
  "touched t hands note \<longleftrightarrow>
   (\<exists>hp lx ly. (if note_type note = LeftHand then left hands else right hands) = Some hp \<and>
      lookup LANE_X_POSITIONS (lineIndex note) = Some lx \<and>
      lookup LAYER_Y_POSITIONS (lineLayer note) = Some ly \<and>
      distanceTo hp \<lparr>vx = lx, vy = ly, vz = currentZ t note\<rparr> < 0.8)"
  by (auto simp: touched_def handPosOf_def withinReach_def split: option.splits)

lemma goodCut_iff:
  "goodCut v note \<longleftrightarrow>
   (cutDirection note = ANY \<and> 1.5 \<le> vlength v) \<or>
   (cutDirection note \<noteq> ANY \<and>
    0.3 \<le> dot (normalize v) (DIRECTION_VECTORS (cutDirection note)) \<and> 1.5 \<le> vlength v)"
  by (auto simp: goodCut_def Let_def)

text \<open>
  C1. In a frame of a playing session, a note that is active in the judgement pass and
  unresolved before it is marked hit exactly when its depth \<open>z\<close> lies strictly between
  1.5 before and 1.0 after the player line, the hand of its type has a position, and the
  distance from that position to (lane x, layer y, \<open>z\<close>) is below 0.8. The hit callback
  fires for it exactly then, with \<^verbatim>\<open>goodCut\<close> true iff the direction is ANY and the
  hand speed is at least 1.5, or the direction is specific, the normalised velocity's dot
  product with the direction vector is at least 0.3 and the speed is at least 1.5.
\<close>

theorem C1_hit_judgement:
  assumes "wellFormed s" and "\<not> ended a"
    and "k \<in> set (activeNotes (activateNotes (currentTime a) s))"
    and "\<not> hit (notesState s ! k)" and "\<not> missed (notesState s ! k)"
  shows
    "let note = notesState s ! k;
         z = PLAYER_Z - (time note - currentTime a) * NOTE_SPEED;
         handPos = (if note_type note = LeftHand then left hands else right hands);
         handVel = (if note_type note = LeftHand then leftVelocity hands else rightVelocity hands);
         r = useFrame PLAYING (Some a) hands s
     in (hit (notesState (fst r) ! k) \<longleftrightarrow>
           PLAYER_Z - 1.5 < z \<and> z < PLAYER_Z + 1.0 \<and>
           (\<exists>hp lx ly. handPos = Some hp \<and>
              lookup LANE_X_POSITIONS (lineIndex note) = Some lx \<and>
              lookup LAYER_Y_POSITIONS (lineLayer note) = Some ly \<and>
              distanceTo hp \<lparr>vx = lx, vy = ly, vz = z\<rparr> < 0.8)) \<and>
        (\<forall>g. NoteHit k g \<in> set (snd r) \<longleftrightarrow>
           hit (notesState (fst r) ! k) \<and>
           (g \<longleftrightarrow>
             (cutDirection note = ANY \<and> 1.5 \<le> vlength handVel) \<or>
             (cutDirection note \<noteq> ANY \<and>
              0.3 \<le> dot (normalize handVel) (DIRECTION_VECTORS (cutDirection note)) \<and>
              1.5 \<le> vlength handVel)))"
proof -
  let ?t = "currentTime a"
  let ?A = "activeNotes (activateNotes ?t s)"
  let ?note = "notesState s ! k"
  have wf1: "wellFormed (activateNotes ?t s)"
    using assms(1) by (rule wellFormed_activateNotes)
  then have klen: "k < length (notesState s)"
    using assms(3) by (auto simp: wellFormed_def)
  from useFrame_spec [OF assms(1,2), of hands]
  obtain s' where
    r: "useFrame PLAYING (Some a) hands s =
      (s', concat (map (\<lambda>k. judgementEvents k (judge ?t hands (notesState s ! k))) (rev ?A)))"
    and nts: "\<forall>j<length (notesState s). notesState s' ! j =
       (if j \<in> set ?A then resolveNote ?t hands (notesState s ! j) else notesState s ! j)"
    by auto
  have nk: "notesState s' ! k = resolveNote ?t hands ?note"
    using nts klen assms(3) by simp
  have h: "hit (notesState s' ! k) \<longleftrightarrow> inWindow (currentZ ?t ?note) \<and> touched ?t hands ?note"
    unfolding nk using assms(4,5) by (rule hit_resolveNote)
  have ev: "\<And>g. NoteHit k g \<in> set (snd (useFrame PLAYING (Some a) hands s)) \<longleftrightarrow>
      judge ?t hands ?note = Struck g"
    unfolding r using assms(3) by (simp add: NoteHit_in_events del: set_concat)
  have j: "\<And>g. judge ?t hands ?note = Struck g \<longleftrightarrow>
      hit (notesState s' ! k) \<and> (g \<longleftrightarrow> goodCut (handVelOf hands ?note) ?note)"
    unfolding h using assms(4,5)
    by (auto simp: judge_def inWindow_def MISS_Z_def PLAYER_Z_def)
  show ?thesis
    unfolding Let_def ev j
    using h r
    by (simp add: touched_iff goodCut_iff inWindow_def currentZ_def handVelOf_def Let_def)
qed

lemma activate_scenario:
  "activateNotes 2 (initialScene [scenarioNote]) =
   \<lparr>notesState = [scenarioNote], activeNotes = [0], nextNoteIndex = 1\<rparr>"
  apply (subst activateNotes.simps)
  apply (simp add: initialScene_def scenarioNote_def spawnAheadTime_def SPAWN_Z_def PLAYER_Z_def
      NOTE_SPEED_def)
  apply (subst activateNotes.simps)
  apply simp
  done

lemma length_positions:
  "length LANE_X_POSITIONS = 4" "length LAYER_Y_POSITIONS = 3"
  by (simp_all add: LANE_X_POSITIONS_def LAYER_Y_POSITIONS_def)

text \<open>
  Scenario A of the specification: the left hand is on the note at 2 s and moves at
  speed 2; the note is hit with a good cut.
\<close>

theorem C1_witness:
  "wellFormed (initialScene [scenarioNote]) \<and>
   hit (notesState (fst (useFrame PLAYING (Some \<lparr>currentTime = 2, ended = False\<rparr>)
      scenarioHands (initialScene [scenarioNote]))) ! 0) \<and>
   NoteHit 0 True \<in> set (snd (useFrame PLAYING (Some \<lparr>currentTime = 2, ended = False\<rparr>)
      scenarioHands (initialScene [scenarioNote])))"
  using C1_hit_judgement [of "initialScene [scenarioNote]" "\<lparr>currentTime = 2, ended = False\<rparr>" 0
      scenarioHands]
  apply (simp add: wellFormed_initialScene activate_scenario Let_def)
  apply (simp add: initialScene_def scenarioNote_def scenarioHands_def initialHands_def
      lookup_def length_positions)
  apply (simp add: PLAYER_Z_def NOTE_SPEED_def LANE_X_POSITIONS_def LAYER_Y_POSITIONS_def
      LANE_WIDTH_def distanceTo_def distanceToSquared_def vlength_def)
  done

section \<open>Order of resolution within a frame\<close>

lemma noteRefs_append: "noteRefs (xs @ ys) = noteRefs xs @ noteRefs ys"
  by (induction xs rule: noteRefs.induct) simp_all

lemma noteRefs_events:
  "noteRefs (concat (map (\<lambda>k. judgementEvents k (J k)) xs)) = filter (\<lambda>k. J k \<noteq> Pending) xs"
proof (induction xs)
  case Nil
  then show ?case by simp
next
  case (Cons x xs)
  then show ?case by (cases "J x") (simp_all add: noteRefs_append)
qed

text \<open>
  C5 (as amended). The judgement pass walks the active list from its last index down to 0,
  that is from the most recently activated note to the oldest: the notes resolved in one
  frame are resolved, and their callbacks invoked, in strictly decreasing chart order.
\<close>

theorem C5_reverse_order:
  assumes "wellFormed s"
  shows "sorted_wrt (>) (noteRefs (snd (useFrame status audio hands s)))"
proof (cases "status = PLAYING \<and> (\<exists>a. audio = Some a \<and> \<not> ended a)")
  case True
  then obtain a where a: "audio = Some a" "\<not> ended a" "status = PLAYING" by blast
  let ?A = "activeNotes (activateNotes (currentTime a) s)"
  let ?J = "\<lambda>k. judge (currentTime a) hands (notesState s ! k)"
  from useFrame_spec [OF assms a(2), of hands]
  have ev: "snd (useFrame PLAYING (Some a) hands s) =
      concat (map (\<lambda>k. judgementEvents k (?J k)) (rev ?A))"
    by auto
  have "sorted_wrt (<) ?A"
    using wellFormed_activateNotes [OF assms] by (simp add: wellFormed_def)
  then have "sorted_wrt (>) (rev ?A)"
    by (simp add: sorted_wrt_rev)
  then have "sorted_wrt (>) (filter (\<lambda>k. ?J k \<noteq> Pending) (rev ?A))"
    by (rule sorted_wrt_filter)
  then show ?thesis
    unfolding a ev noteRefs_events .
next
  case False
  then have "snd (useFrame status audio hands s) = [] \<or>
      snd (useFrame status audio hands s) = [SongEnd]"
    by (auto simp: useFrame_def split: option.splits)
  then show ?thesis by auto
qed

lemma activate_lateChart:
  "activateNotes 10 (initialScene lateChart) =
   \<lparr>notesState = lateChart, activeNotes = [0, 1], nextNoteIndex = 2\<rparr>"
  apply (subst activateNotes.simps)
  apply (simp add: initialScene_def lateChart_def scenarioNote_def spawnAheadTime_def
      SPAWN_Z_def PLAYER_Z_def NOTE_SPEED_def)
  apply (subst activateNotes.simps)
  apply (simp add: spawnAheadTime_def SPAWN_Z_def PLAYER_Z_def NOTE_SPEED_def)
  apply (subst activateNotes.simps)
  apply simp
  done

text \<open>
  C5 as stated fails: with two notes at 1 s and 2 s and one frame at 10 s, both notes
  expire in that frame and the miss of the later note is emitted first.
\<close>

theorem C5_counterexample:
  "time (lateChart ! 0) < time (lateChart ! 1) \<and>
   snd (useFrame PLAYING (Some \<lparr>currentTime = 10, ended = False\<rparr>) initialHands
          (initialScene lateChart)) = [NoteMiss 1, NoteMiss 0]"
  by (simp add: useFrame_def activate_lateChart Let_def)
    (simp add: lateChart_def scenarioNote_def judgeAt_def currentZ_def PLAYER_Z_def
      NOTE_SPEED_def MISS_Z_def splice1_def Let_def)

theorem C5_witness:
  "wellFormed (initialScene lateChart) \<and>
   sorted_wrt (>) (noteRefs (snd (useFrame PLAYING (Some \<lparr>currentTime = 10, ended = False\<rparr>)
      initialHands (initialScene lateChart))))"
  using C5_reverse_order [of "initialScene lateChart" PLAYING
      "Some \<lparr>currentTime = 10, ended = False\<rparr>" initialHands]
  by (simp add: wellFormed_initialScene)

section \<open>Activation and the cursor\<close>

lemma activateNotes_cursor_iff:
  assumes srt: "sorted (map time (notesState s))" and k: "k < length (notesState s)"
  shows "k < nextNoteIndex (activateNotes t s) \<longleftrightarrow>
     k < nextNoteIndex s \<or> time (notesState s ! k) - spawnAheadTime \<le> t"
proof
  assume "k < nextNoteIndex (activateNotes t s)"
  then show "k < nextNoteIndex s \<or> time (notesState s ! k) - spawnAheadTime \<le> t"
    using activateNotes_due [of s k t] by (cases "k < nextNoteIndex s") simp_all
next
  assume r: "k < nextNoteIndex s \<or> time (notesState s ! k) - spawnAheadTime \<le> t"
  show "k < nextNoteIndex (activateNotes t s)"
  proof (rule ccontr)
    let ?c = "nextNoteIndex (activateNotes t s)"
    assume "\<not> k < ?c"
    then have ck: "?c \<le> k" by simp
    then have "\<not> k < nextNoteIndex s"
      using activateNotes_mono [of s t] by simp
    then have due: "time (notesState s ! k) - spawnAheadTime \<le> t" using r by simp
    have c: "?c < length (notesState s)" using ck k by simp
    then have late: "\<not> time (notesState s ! ?c) - spawnAheadTime \<le> t"
      by (rule activateNotes_stop)
    have "map time (notesState s) ! ?c \<le> map time (notesState s) ! k"
      using srt ck k by (simp add: sorted_iff_nth_mono del: nth_map)
    then have "time (notesState s ! ?c) \<le> time (notesState s ! k)"
      using c k by simp
    then show False using due late by simp
  qed
qed

lemma useFrame_cursor:
  assumes "wellFormed s" "\<not> ended a"
  shows "nextNoteIndex (fst (useFrame PLAYING (Some a) hands s)) =
     nextNoteIndex (activateNotes (currentTime a) s)"
  using useFrame_spec [OF assms, of hands] by auto

lemma useFrame_length:
  assumes "wellFormed s"
  shows "length (notesState (fst (useFrame status audio hands s))) = length (notesState s)"
  using times_useFrame [OF assms, of status audio hands]
  by (metis length_map)

lemma useFrame_cursor_mono:
  assumes "wellFormed s"
  shows "nextNoteIndex s \<le> nextNoteIndex (fst (useFrame status audio hands s))"
proof (cases "status = PLAYING \<and> (\<exists>a. audio = Some a \<and> \<not> ended a)")
  case True
  then obtain a where a: "audio = Some a" "\<not> ended a" "status = PLAYING" by blast
  show ?thesis
    unfolding a useFrame_cursor [OF assms a(2)] by (rule activateNotes_mono)
next
  case False
  then have "fst (useFrame status audio hands s) = s"
    by (auto simp: useFrame_def split: option.splits)
  then show ?thesis by simp
qed

lemma playFrames_wellFormed:
  "wellFormed (fst st) \<Longrightarrow> wellFormed (fst (playFrames fs st))"
proof (induction fs arbitrary: st)
  case Nil
  then show ?case by simp
next
  case (Cons f fs)
  obtain t hands where f: "f = (t, hands)" by (cases f)
  show ?case
    unfolding f using Cons.prems
    by (simp add: Let_def Cons.IH wellFormed_useFrame)
qed

lemma playFrames_times:
  "wellFormed (fst st) \<Longrightarrow>
   map time (notesState (fst (playFrames fs st))) = map time (notesState (fst st))"
proof (induction fs arbitrary: st)
  case Nil
  then show ?case by simp
next
  case (Cons f fs)
  obtain t hands where f: "f = (t, hands)" by (cases f)
  show ?case
    unfolding f using Cons.prems
    by (simp add: Let_def Cons.IH wellFormed_useFrame times_useFrame)
qed

lemma playFrames_cursor_mono:
  "wellFormed (fst st) \<Longrightarrow> nextNoteIndex (fst st) \<le> nextNoteIndex (fst (playFrames fs st))"
proof (induction fs arbitrary: st)
  case Nil
  then show ?case by simp
next
  case (Cons f fs)
  obtain t hands where f: "f = (t, hands)" by (cases f)
  let ?r = "useFrame PLAYING (Some \<lparr>currentTime = t, ended = False\<rparr>) hands (fst st)"
  have "nextNoteIndex (fst st) \<le> nextNoteIndex (fst ?r)"
    using Cons.prems by (rule useFrame_cursor_mono)
  also have "\<dots> \<le> nextNoteIndex (fst (playFrames fs (fst ?r, snd st @ snd ?r)))"
    using Cons.IH [of "(fst ?r, snd st @ snd ?r)"] Cons.prems
    by (simp add: wellFormed_useFrame)
  finally show ?case unfolding f by (simp add: Let_def)
qed

lemma playFrames_cursor_due:
  assumes "wellFormed (fst st)"
    and "sorted (map time (notesState (fst st)))"
    and "sorted (map fst fs)" and "fs \<noteq> []"
    and "\<forall>k<nextNoteIndex (fst st). time (notesState (fst st) ! k) - spawnAheadTime \<le> fst (hd fs)"
    and "k < length (notesState (fst st))"
  shows "k < nextNoteIndex (fst (playFrames fs st)) \<longleftrightarrow>
     time (notesState (fst st) ! k) - spawnAheadTime \<le> fst (last fs)"
  using assms
proof (induction fs arbitrary: st)
  case Nil
  then show ?case by simp
next
  case (Cons f fs)
  obtain t hands where f: "f = (t, hands)" by (cases f)
  let ?s = "fst st"
  let ?a = "\<lparr>currentTime = t, ended = False\<rparr>"
  let ?r = "useFrame PLAYING (Some ?a) hands ?s"
  let ?st1 = "(fst ?r, snd st @ snd ?r)"
  have wf: "wellFormed ?s" by (rule Cons.prems(1))
  have wf1: "wellFormed (fst ?st1)" using wf by (simp add: wellFormed_useFrame)
  have tm: "map time (notesState (fst ?st1)) = map time (notesState ?s)"
    using wf by (simp add: times_useFrame)
  have len: "length (notesState (fst ?st1)) = length (notesState ?s)"
    using tm by (metis length_map)
  have tmk: "\<And>j. j < length (notesState ?s) \<Longrightarrow>
      time (notesState (fst ?st1) ! j) = time (notesState ?s ! j)"
    using tm len by (metis nth_map)
  have cur: "nextNoteIndex (fst ?st1) = nextNoteIndex (activateNotes t ?s)"
    using useFrame_cursor [OF wf, of ?a hands] by simp
  have c1: "\<And>j. j < length (notesState ?s) \<Longrightarrow>
      j < nextNoteIndex (fst ?st1) \<longleftrightarrow> time (notesState ?s ! j) - spawnAheadTime \<le> t"
  proof -
    fix j assume j: "j < length (notesState ?s)"
    have "j < nextNoteIndex ?s \<Longrightarrow> time (notesState ?s ! j) - spawnAheadTime \<le> t"
      using Cons.prems(5) by (simp add: f)
    then show "j < nextNoteIndex (fst ?st1) \<longleftrightarrow> time (notesState ?s ! j) - spawnAheadTime \<le> t"
      unfolding cur activateNotes_cursor_iff [OF Cons.prems(2) j] by blast
  qed
  have run: "playFrames (f # fs) st = playFrames fs ?st1"
    by (simp add: f Let_def)
  show ?case
  proof (cases "fs = []")
    case True
    show ?thesis
      using True c1 [OF Cons.prems(6)] by (simp add: f Let_def)
  next
    case False
    have le: "t \<le> fst (hd fs)"
      using Cons.prems(3) False by (cases fs) (auto simp: f)
    have bound: "nextNoteIndex (fst ?st1) \<le> length (notesState ?s)"
      using wf1 len by (simp add: wellFormed_def)
    have p5: "\<forall>j<nextNoteIndex (fst ?st1).
        time (notesState (fst ?st1) ! j) - spawnAheadTime \<le> fst (hd fs)"
    proof (intro allI impI)
      fix j assume j: "j < nextNoteIndex (fst ?st1)"
      then have jl: "j < length (notesState ?s)" using bound by simp
      then have "time (notesState ?s ! j) - spawnAheadTime \<le> t" using c1 j by blast
      then show "time (notesState (fst ?st1) ! j) - spawnAheadTime \<le> fst (hd fs)"
        using le tmk [OF jl] by simp
    qed
    have "k < nextNoteIndex (fst (playFrames fs ?st1)) \<longleftrightarrow>
       time (notesState (fst ?st1) ! k) - spawnAheadTime \<le> fst (last fs)"
    proof (rule Cons.IH [OF wf1 _ _ False p5])
      show "sorted (map time (notesState (fst ?st1)))"
        unfolding tm by (rule Cons.prems(2))
      show "sorted (map fst fs)" using Cons.prems(3) by simp
      show "k < length (notesState (fst ?st1))" using Cons.prems(6) len by simp
    qed
    then show ?thesis
      unfolding run using False tmk [OF Cons.prems(6)] by simp
  qed
qed

lemma activateNotes_ignores_earlier:
  "k < nextNoteIndex s \<Longrightarrow>
   nextNoteIndex (activateNotes t (s\<lparr>notesState := (notesState s)[k := n]\<rparr>)) =
     nextNoteIndex (activateNotes t s) \<and>
   activeNotes (activateNotes t (s\<lparr>notesState := (notesState s)[k := n]\<rparr>)) =
     activeNotes (activateNotes t s)"
proof (induction t s rule: activateNotes.induct)
  case (1 t s)
  let ?u = "s\<lparr>notesState := (notesState s)[k := n]\<rparr>"
  show ?case
  proof (cases "nextNoteIndex s < length (notesState s) \<and>
      time (notesState s ! nextNoteIndex s) - spawnAheadTime \<le> t")
    case True
    let ?s1 = "s\<lparr>activeNotes := activeNotes s @ [nextNoteIndex s],
                nextNoteIndex := Suc (nextNoteIndex s)\<rparr>"
    have eq: "activateNotes t s = activateNotes t ?s1"
      using True by (subst activateNotes.simps) (simp add: Let_def)
    have "activateNotes t ?u = activateNotes t (?u\<lparr>activeNotes := activeNotes ?u @ [nextNoteIndex ?u],
                nextNoteIndex := Suc (nextNoteIndex ?u)\<rparr>)"
      using True "1.prems" by (subst activateNotes.simps) (simp add: Let_def)
    moreover have "?u\<lparr>activeNotes := activeNotes ?u @ [nextNoteIndex ?u],
                nextNoteIndex := Suc (nextNoteIndex ?u)\<rparr> =
        ?s1\<lparr>notesState := (notesState ?s1)[k := n]\<rparr>"
      by (rule GameSceneState.equality) simp_all
    ultimately have equ:
      "activateNotes t ?u = activateNotes t (?s1\<lparr>notesState := (notesState ?s1)[k := n]\<rparr>)"
      by (simp only:)
    have "k < nextNoteIndex ?s1" using "1.prems" by simp
    from "1.IH" [OF _ refl _ this] True
    show ?thesis unfolding eq equ by simp
  next
    case False
    then have "activateNotes t s = s"
      by (subst activateNotes.simps) (auto simp: Let_def)
    moreover have "activateNotes t ?u = ?u"
      using False "1.prems" by (subst activateNotes.simps) (auto simp: Let_def)
    ultimately show ?thesis by simp
  qed
qed

text \<open>
  C4. For a chart sorted by time: over any run of frames the cursor never decreases; one
  frame at time \<open>t\<close> moves the cursor past note \<open>k\<close> exactly when it was already past it or
  \<open>time k - spawnAheadTime \<le> t\<close>, where \<open>spawnAheadTime = |SPAWN_Z - PLAYER_Z| / NOTE_SPEED\<close>;
  the notes the cursor passes are appended to the active list, in chart order; the chart
  entries before the cursor are not read again (replacing one changes nothing); and over
  a run of frames with non-decreasing times the cursor is past note \<open>k\<close> exactly when
  \<open>time k - spawnAheadTime\<close> is at most the time of the last frame.
\<close>

theorem C4_activation_cursor:
  assumes "wellFormed s" and "sorted (map time (notesState s))"
  shows
    "nextNoteIndex s \<le> nextNoteIndex (fst (playFrames fs (s, evs))) \<and>
     (\<forall>k<length (notesState s).
        k < nextNoteIndex (fst (useFrame PLAYING (Some \<lparr>currentTime = t, ended = False\<rparr>) hands s))
        \<longleftrightarrow> k < nextNoteIndex s \<or> time (notesState s ! k) - spawnAheadTime \<le> t) \<and>
     activeNotes (activateNotes t s) =
        activeNotes s @ [nextNoteIndex s ..< nextNoteIndex (activateNotes t s)] \<and>
     (\<forall>k<nextNoteIndex s. \<forall>n.
        nextNoteIndex (activateNotes t (s\<lparr>notesState := (notesState s)[k := n]\<rparr>)) =
          nextNoteIndex (activateNotes t s) \<and>
        activeNotes (activateNotes t (s\<lparr>notesState := (notesState s)[k := n]\<rparr>)) =
          activeNotes (activateNotes t s)) \<and>
     (sorted (map fst fs) \<and> fs \<noteq> [] \<and>
      (\<forall>k<nextNoteIndex s. time (notesState s ! k) - spawnAheadTime \<le> fst (hd fs)) \<longrightarrow>
      (\<forall>k<length (notesState s).
         k < nextNoteIndex (fst (playFrames fs (s, evs))) \<longleftrightarrow>
         time (notesState s ! k) - spawnAheadTime \<le> fst (last fs)))"
proof (intro conjI allI impI)
  show "nextNoteIndex s \<le> nextNoteIndex (fst (playFrames fs (s, evs)))"
    using playFrames_cursor_mono [of "(s, evs)" fs] assms(1) by simp
next
  fix k assume k: "k < length (notesState s)"
  have "nextNoteIndex (fst (useFrame PLAYING (Some \<lparr>currentTime = t, ended = False\<rparr>) hands s)) =
      nextNoteIndex (activateNotes t s)"
    using useFrame_cursor [OF assms(1), of "\<lparr>currentTime = t, ended = False\<rparr>" hands] by simp
  then show "k < nextNoteIndex (fst (useFrame PLAYING (Some \<lparr>currentTime = t, ended = False\<rparr>) hands s))
        \<longleftrightarrow> k < nextNoteIndex s \<or> time (notesState s ! k) - spawnAheadTime \<le> t"
    using activateNotes_cursor_iff [OF assms(2) k, of t] by simp
next
  show "activeNotes (activateNotes t s) =
        activeNotes s @ [nextNoteIndex s ..< nextNoteIndex (activateNotes t s)]"
    by (rule activateNotes_active)
next
  fix k n assume "k < nextNoteIndex s"
  then show "nextNoteIndex (activateNotes t (s\<lparr>notesState := (notesState s)[k := n]\<rparr>)) =
          nextNoteIndex (activateNotes t s)"
    and "activeNotes (activateNotes t (s\<lparr>notesState := (notesState s)[k := n]\<rparr>)) =
          activeNotes (activateNotes t s)"
    using activateNotes_ignores_earlier [of k s t n] by simp_all
next
  fix k
  assume h: "sorted (map fst fs) \<and> fs \<noteq> [] \<and>
      (\<forall>k<nextNoteIndex s. time (notesState s ! k) - spawnAheadTime \<le> fst (hd fs))"
    and k: "k < length (notesState s)"
  show "k < nextNoteIndex (fst (playFrames fs (s, evs))) \<longleftrightarrow>
         time (notesState s ! k) - spawnAheadTime \<le> fst (last fs)"
    using playFrames_cursor_due [of "(s, evs)" fs k] assms h k by simp
qed

text \<open>Two notes at 1 s and 2 s, one frame at 10 s: the cursor moves from 0 to 2.\<close>

theorem C4_witness:
  "wellFormed (initialScene lateChart) \<and> sorted (map time (notesState (initialScene lateChart))) \<and>
   nextNoteIndex (initialScene lateChart) = 0 \<and>
   nextNoteIndex (fst (playFrames [(10, initialHands)] (initialScene lateChart, []))) = 2"
proof -
  let ?s = "initialScene lateChart"
  have wf: "wellFormed ?s" by (rule wellFormed_initialScene)
  have srt: "sorted (map time (notesState ?s))"
    by (simp add: initialScene_def lateChart_def)
  have len: "length (notesState ?s) = 2"
    by (simp add: initialScene_def lateChart_def)
  have fr: "sorted (map fst [(10::real, initialHands)]) \<and> [(10::real, initialHands)] \<noteq> [] \<and>
      (\<forall>k<nextNoteIndex ?s. time (notesState ?s ! k) - spawnAheadTime \<le> fst (hd [(10::real, initialHands)]))"
    by (simp add: initialScene_def)
  let ?c = "nextNoteIndex (fst (playFrames [(10, initialHands)] (?s, [])))"
  from C4_activation_cursor [OF wf srt, of "[(10, initialHands)]" "[]" 10 initialHands] fr
  have iff: "\<forall>k<length (notesState ?s). k < ?c \<longleftrightarrow>
      time (notesState ?s ! k) - spawnAheadTime \<le> fst (last [(10::real, initialHands)])"
    by blast
  have "1 < ?c"
    using iff len
    by (simp add: initialScene_def lateChart_def scenarioNote_def spawnAheadTime_def SPAWN_Z_def
        PLAYER_Z_def NOTE_SPEED_def)
  moreover have "?c \<le> 2"
    using playFrames_wellFormed [of "(?s, [])" "[(10, initialHands)]"] wf
      playFrames_times [of "(?s, [])" "[(10, initialHands)]"] len
    unfolding wellFormed_def by (metis fst_conv length_map)
  ultimately show ?thesis using wf srt by (simp add: initialScene_def)
qed

section \<open>Single resolution of a note\<close>

lemma resolveNote_resolved: "hit note \<or> missed note \<Longrightarrow> resolveNote t hands note = note"
  by (simp add: resolveNote_def judge_def)

lemma resolveNote_exclusive:
  "\<not> (hit note \<and> missed note) \<Longrightarrow>
   \<not> (hit (resolveNote t hands note) \<and> missed (resolveNote t hands note))"
  by (cases "judge t hands note") (auto simp: resolveNote_def judge_def split: if_splits)

lemma resolveNote_miss_first:
  "\<not> hit note \<Longrightarrow> \<not> missed note \<Longrightarrow> MISS_Z < currentZ t note \<Longrightarrow>
   judge t hands note = Missed"
  by (simp add: judge_def)

lemma filter_concerns_events:
  "distinct xs \<Longrightarrow>
   filter (concerns j) (concat (map (\<lambda>k. judgementEvents k (J k)) xs)) =
   (if j \<in> set xs then judgementEvents j (J j) else [])"
proof (induction xs)
  case Nil
  then show ?case by simp
next
  case (Cons x xs)
  then show ?case by (cases "J x"; cases "J j") auto
qed

lemma judgementEvents_short: "length (judgementEvents k j) \<le> 1"
  by (cases j) simp_all

text \<open>What one frame does to one note and which callbacks it invokes for it.\<close>

lemma useFrame_note:
  assumes wf: "wellFormed s" and j: "j < length (notesState s)"
  shows "(notesState (fst (useFrame status audio hands s)) ! j = notesState s ! j \<and>
          filter (concerns j) (snd (useFrame status audio hands s)) = []) \<or>
         (\<exists>t. notesState (fst (useFrame status audio hands s)) ! j =
                resolveNote t hands (notesState s ! j) \<and>
              filter (concerns j) (snd (useFrame status audio hands s)) =
                judgementEvents j (judge t hands (notesState s ! j)))"
proof (cases "status = PLAYING \<and> (\<exists>a. audio = Some a \<and> \<not> ended a)")
  case True
  then obtain a where a: "audio = Some a" "\<not> ended a" "status = PLAYING" by blast
  let ?t = "currentTime a"
  let ?A = "activeNotes (activateNotes ?t s)"
  let ?J = "\<lambda>k. judge ?t hands (notesState s ! k)"
  have d: "distinct (rev ?A)"
    using wellFormed_distinct [OF wellFormed_activateNotes [OF wf]] by simp
  from useFrame_spec [OF wf a(2), of hands]
  obtain s' where
    r: "useFrame PLAYING (Some a) hands s =
      (s', concat (map (\<lambda>k. judgementEvents k (?J k)) (rev ?A)))"
    and nts: "\<forall>j<length (notesState s). notesState s' ! j =
       (if j \<in> set ?A then resolveNote ?t hands (notesState s ! j) else notesState s ! j)"
    by auto
  have ev: "filter (concerns j) (snd (useFrame status audio hands s)) =
      (if j \<in> set ?A then judgementEvents j (?J j) else [])"
    unfolding a r using filter_concerns_events [OF d, of j ?J] by simp
  have nt: "notesState (fst (useFrame status audio hands s)) ! j =
      (if j \<in> set ?A then resolveNote ?t hands (notesState s ! j) else notesState s ! j)"
    unfolding a r using nts j by simp
  show ?thesis
  proof (cases "j \<in> set ?A")
    case True
    then show ?thesis using ev nt by auto
  next
    case False
    then show ?thesis using ev nt by simp
  qed
next
  case False
  then have "useFrame status audio hands s = (s, []) \<or>
      useFrame status audio hands s = (s, [SongEnd])"
    by (auto simp: useFrame_def split: option.splits)
  then show ?thesis by auto
qed

lemma judgementEvents_resolved:
  "judgementEvents j (judge t hands note) \<noteq> [] \<Longrightarrow>
   hit (resolveNote t hands note) \<or> missed (resolveNote t hands note)"
  by (cases "judge t hands note") (simp_all add: resolveNote_def)

lemma playFrames_snd:
  "snd (playFrames fs (s, evs)) = evs @ snd (playFrames fs (s, []))"
proof (induction fs arbitrary: s evs)
  case Nil
  then show ?case by simp
next
  case (Cons f fs)
  obtain t hands where f: "f = (t, hands)" by (cases f)
  let ?r = "useFrame PLAYING (Some \<lparr>currentTime = t, ended = False\<rparr>) hands s"
  have "snd (playFrames (f # fs) (s, evs)) = snd (playFrames fs (fst ?r, evs @ snd ?r))"
    by (simp add: f Let_def)
  also have "\<dots> = (evs @ snd ?r) @ snd (playFrames fs (fst ?r, []))"
    by (rule Cons.IH)
  also have "\<dots> = evs @ snd (playFrames fs (fst ?r, snd ?r))"
    using Cons.IH [of "fst ?r" "snd ?r"] by simp
  also have "\<dots> = evs @ snd (playFrames (f # fs) (s, []))"
    by (simp add: f Let_def)
  finally show ?case .
qed

lemma playFrames_fst:
  "fst (playFrames fs (s, evs)) = fst (playFrames fs (s, []))"
proof (induction fs arbitrary: s evs)
  case Nil
  then show ?case by simp
next
  case (Cons f fs)
  obtain t hands where f: "f = (t, hands)" by (cases f)
  let ?r = "useFrame PLAYING (Some \<lparr>currentTime = t, ended = False\<rparr>) hands s"
  have "fst (playFrames (f # fs) (s, evs)) = fst (playFrames fs (fst ?r, evs @ snd ?r))"
    by (simp add: f Let_def)
  also have "\<dots> = fst (playFrames fs (fst ?r, []))" by (rule Cons.IH)
  also have "\<dots> = fst (playFrames fs (fst ?r, snd ?r))" by (rule Cons.IH [symmetric])
  also have "\<dots> = fst (playFrames (f # fs) (s, []))" by (simp add: f Let_def)
  finally show ?case .
qed

lemma playFrames_note:
  assumes "wellFormed s" and "j < length (notesState s)"
  shows "(hit (notesState s ! j) \<or> missed (notesState s ! j) \<longrightarrow>
            notesState (fst (playFrames fs (s, []))) ! j = notesState s ! j \<and>
            filter (concerns j) (snd (playFrames fs (s, []))) = []) \<and>
         (\<not> (hit (notesState s ! j) \<and> missed (notesState s ! j)) \<longrightarrow>
            \<not> (hit (notesState (fst (playFrames fs (s, []))) ! j) \<and>
               missed (notesState (fst (playFrames fs (s, []))) ! j))) \<and>
         length (filter (concerns j) (snd (playFrames fs (s, [])))) \<le> 1 \<and>
         (filter (concerns j) (snd (playFrames fs (s, []))) \<noteq> [] \<longrightarrow>
            hit (notesState (fst (playFrames fs (s, []))) ! j) \<or>
            missed (notesState (fst (playFrames fs (s, []))) ! j))"
  using assms
proof (induction fs arbitrary: s)
  case Nil
  then show ?case by simp
next
  case (Cons f fs)
  obtain t hands where f: "f = (t, hands)" by (cases f)
  let ?audio = "Some \<lparr>currentTime = t, ended = False\<rparr>"
  let ?r = "useFrame PLAYING ?audio hands s"
  let ?s1 = "fst ?r"
  let ?n = "notesState s ! j" and ?n1 = "notesState ?s1 ! j"
  let ?run = "playFrames fs (?s1, [])"
  have wf1: "wellFormed ?s1" using Cons.prems(1) by (rule wellFormed_useFrame)
  have j1: "j < length (notesState ?s1)"
    using Cons.prems times_useFrame [of s PLAYING ?audio hands] by (metis length_map)
  note IH = Cons.IH [OF wf1 j1]
  have st: "fst (playFrames (f # fs) (s, [])) = fst ?run"
    using playFrames_fst [of fs ?s1 "snd ?r"] by (simp add: f Let_def)
  have ev: "snd (playFrames (f # fs) (s, [])) = snd ?r @ snd ?run"
    using playFrames_snd [of fs ?s1 "snd ?r"] by (simp add: f Let_def)
  from useFrame_note [OF Cons.prems, of PLAYING ?audio hands]
  consider (same) "?n1 = ?n" "filter (concerns j) (snd ?r) = []"
    | (res) t' where "?n1 = resolveNote t' hands ?n"
        "filter (concerns j) (snd ?r) = judgementEvents j (judge t' hands ?n)"
    by blast
  then show ?case
  proof cases
    case same
    then show ?thesis unfolding st ev using IH by simp
  next
    case res
    show ?thesis
    proof (cases "hit ?n \<or> missed ?n")
      case True
      then have "?n1 = ?n" "filter (concerns j) (snd ?r) = []"
        using res by (simp_all add: resolveNote_resolved judge_def)
      then show ?thesis unfolding st ev using IH by simp
    next
      case False
      show ?thesis
      proof (cases "judgementEvents j (judge t' hands ?n) = []")
        case True
        then have "\<not> (hit ?n1 \<and> missed ?n1)"
          using res(1) False resolveNote_exclusive [of ?n t' hands] by simp
        then show ?thesis unfolding st ev using IH res(2) True False by simp
      next
        case nonempty: False
        then have r1: "hit ?n1 \<or> missed ?n1"
          using res(1) judgementEvents_resolved by simp
        have x1: "\<not> (hit ?n1 \<and> missed ?n1)"
          using res(1) False resolveNote_exclusive [of ?n t' hands] by simp
        have l1: "length (filter (concerns j) (snd ?r)) \<le> 1"
          unfolding res(2) by (rule judgementEvents_short)
        show ?thesis unfolding st ev using IH r1 x1 l1 False by simp
      qed
    qed
  qed
qed

text \<open>
  C3. From any state the frames can reach, over any run of playing frames: a note that is
  already hit or missed is never changed again and no callback is invoked for it (so a hit
  note is never marked missed, nor a missed note hit); a note never carries both flags;
  at most one hit or miss callback is ever invoked for a note; and within a frame the
  expiry test comes first: an active, unresolved note beyond \<^verbatim>\<open>MISS_Z\<close> is marked missed,
  not hit, whatever the hands do, with the miss callback as its only event.
\<close>

theorem C3_single_resolution:
  assumes "wellFormed s" and "j < length (notesState s)"
  shows
    "let r = playFrames fs (s, []);
         note = notesState s ! j;
         note' = notesState (fst r) ! j;
         f = useFrame PLAYING (Some \<lparr>currentTime = t, ended = False\<rparr>) hands s
     in (hit note \<or> missed note \<longrightarrow> note' = note \<and> filter (concerns j) (snd r) = []) \<and>
        (\<not> (hit note \<and> missed note) \<longrightarrow> \<not> (hit note' \<and> missed note')) \<and>
        length (filter (concerns j) (snd r)) \<le> 1 \<and>
        (j \<in> set (activeNotes (activateNotes t s)) \<and> \<not> hit note \<and> \<not> missed note \<and>
         MISS_Z < currentZ t note \<longrightarrow>
           missed (notesState (fst f) ! j) \<and> \<not> hit (notesState (fst f) ! j) \<and>
           filter (concerns j) (snd f) = [NoteMiss j])"
proof -
  let ?a = "\<lparr>currentTime = t, ended = False\<rparr>"
  let ?f = "useFrame PLAYING (Some ?a) hands s"
  let ?note = "notesState s ! j"
  let ?A = "activeNotes (activateNotes t s)"
  have miss: "missed (notesState (fst ?f) ! j) \<and> \<not> hit (notesState (fst ?f) ! j) \<and>
      filter (concerns j) (snd ?f) = [NoteMiss j]"
    if h: "j \<in> set ?A" "\<not> hit ?note" "\<not> missed ?note" "MISS_Z < currentZ t ?note"
  proof -
    have d: "distinct (rev ?A)"
      using wellFormed_distinct [OF wellFormed_activateNotes [OF assms(1)]] by simp
    have jm: "judge t hands ?note = Missed"
      using h(2-4) by (rule resolveNote_miss_first)
    from useFrame_spec [OF assms(1), of ?a hands]
    obtain s' where
      r: "?f = (s', concat (map (\<lambda>k. judgementEvents k (judge t hands (notesState s ! k))) (rev ?A)))"
      and nts: "\<forall>j<length (notesState s). notesState s' ! j =
         (if j \<in> set ?A then resolveNote t hands (notesState s ! j) else notesState s ! j)"
      by auto
    have "notesState (fst ?f) ! j = resolveNote t hands ?note"
      unfolding r using nts assms(2) h(1) by simp
    moreover have "filter (concerns j) (snd ?f) = judgementEvents j (judge t hands ?note)"
      unfolding r using filter_concerns_events [OF d, of j] h(1) by simp
    ultimately show ?thesis
      using jm h(2) by (simp add: resolveNote_def)
  qed
  show ?thesis
    unfolding Let_def using playFrames_note [OF assms, of fs] miss by blast
qed

text \<open>The note at 1 s, seen first at 10 s, is past the miss line and is marked missed.\<close>

theorem C3_witness:
  "wellFormed (initialScene lateChart) \<and> 0 < length (notesState (initialScene lateChart)) \<and>
   0 \<in> set (activeNotes (activateNotes 10 (initialScene lateChart))) \<and>
   \<not> hit (notesState (initialScene lateChart) ! 0) \<and>
   \<not> missed (notesState (initialScene lateChart) ! 0) \<and>
   MISS_Z < currentZ 10 (notesState (initialScene lateChart) ! 0) \<and>
   missed (notesState (fst (useFrame PLAYING (Some \<lparr>currentTime = 10, ended = False\<rparr>)
      initialHands (initialScene lateChart))) ! 0) \<and>
   length (filter (concerns 0)
      (snd (playFrames [(10, initialHands)] (initialScene lateChart, [])))) \<le> 1"
proof -
  have h: "0 \<in> set (activeNotes (activateNotes 10 (initialScene lateChart))) \<and>
      \<not> hit (notesState (initialScene lateChart) ! 0) \<and>
      \<not> missed (notesState (initialScene lateChart) ! 0) \<and>
      MISS_Z < currentZ 10 (notesState (initialScene lateChart) ! 0)"
    by (simp add: activate_lateChart)
      (simp add: initialScene_def lateChart_def scenarioNote_def currentZ_def MISS_Z_def
        PLAYER_Z_def NOTE_SPEED_def)
  have l: "0 < length (notesState (initialScene lateChart))"
    by (simp add: initialScene_def lateChart_def)
  show ?thesis
    using C3_single_resolution [OF wellFormed_initialScene l,
        of "[(10, initialHands)]" 10 initialHands] h l
    by (simp add: Let_def wellFormed_initialScene)
qed

section \<open>The demo chart is sorted\<close>

lemma sorted_time_nth:
  assumes "sorted (map time xs)" and "i \<le> j" and "j < length xs"
  shows "time (xs ! i) \<le> time (xs ! j)"
proof -
  have "map time xs ! i \<le> map time xs ! j"
    using assms by (simp add: sorted_iff_nth_mono del: nth_map)
  then show ?thesis using assms by simp
qed

text \<open>
  C10. The chart returned by \<^verbatim>\<open>generateDemoChart\<close> is sorted by time, in \<^verbatim>\<open>index.tsx\<close> and,
  for every behaviour of \<^verbatim>\<open>Math.random\<close>, in \<^verbatim>\<open>constants.ts\<close>: for indices \<open>i \<le> j\<close> of
  the array the note at \<open>i\<close> is not later than the note at \<open>j\<close>.
\<close>

theorem C10_chart_sorted:
  "(\<forall>i j. i \<le> j \<and> j < length generateDemoChart_index \<longrightarrow>
      time (generateDemoChart_index ! i) \<le> time (generateDemoChart_index ! j)) \<and>
   (\<forall>i j. i \<le> j \<and> j < length (generateDemoChart rnd) \<longrightarrow>
      time (generateDemoChart rnd ! i) \<le> time (generateDemoChart rnd ! j)) \<and>
   sorted (map time generateDemoChart_index) \<and> sorted (map time (generateDemoChart rnd))"
proof -
  have a: "sorted (map time generateDemoChart_index)"
    unfolding generateDemoChart_index_def by (rule sorted_sort_key)
  have b: "sorted (map time (generateDemoChart rnd))"
    unfolding generateDemoChart_def by (rule sorted_sort_key)
  show ?thesis
    using a b sorted_time_nth [OF a] sorted_time_nth [OF b] by blast
qed

lemma length_demoLoop_index: "length ns \<le> length (demoLoop_index i idCount ns)"
proof (induction "200 - i" arbitrary: i idCount ns rule: less_induct)
  case less
  show ?case
  proof (cases "i < 200")
    case True
    have step: "\<And>c ms. length ms \<le> length (demoLoop_index (Suc (Suc i)) c ms)"
      using less [of "Suc (Suc i)"] True by simp
    have grow: "length ns \<le> length (demoLoop_index (Suc (Suc i)) c (ns @ ms))" for c ms
    proof -
      have "length ns \<le> length (ns @ ms)" by simp
      also have "\<dots> \<le> length (demoLoop_index (Suc (Suc i)) c (ns @ ms))" by (rule step)
      finally show ?thesis .
    qed
    show ?thesis
      using True by (subst demoLoop_index.simps) (simp add: Let_def step grow)
  next
    case False
    then show ?thesis by (subst demoLoop_index.simps) simp
  qed
qed

lemma length_demoLoop: "length ns \<le> length (demoLoop rnd i idCount r ns)"
proof (induction "400 - i" arbitrary: i idCount r ns rule: less_induct)
  case less
  show ?case
  proof (cases "i < 400")
    case True
    have step: "\<And>c q ms. length ms \<le> length (demoLoop rnd (Suc i) c q ms)"
      using less [of "Suc i"] True by simp
    have grow: "length ns \<le> length (demoLoop rnd (Suc i) c q (ns @ ms))" for c q ms
    proof -
      have "length ns \<le> length (ns @ ms)" by simp
      also have "\<dots> \<le> length (demoLoop rnd (Suc i) c q (ns @ ms))" by (rule step)
      finally show ?thesis .
    qed
    show ?thesis
      using True by (subst demoLoop.simps) (simp add: Let_def step grow)
  next
    case False
    then show ?thesis by (subst demoLoop.simps) simp
  qed
qed

lemma two_notes_index: "1 < length generateDemoChart_index"
proof -
  have "demoLoop_index 4 0 [] = demoLoop_index 6 1 [newNote 0 (4 * BEAT_TIME) 1 0 LeftHand None]"
    by (subst demoLoop_index.simps) (simp add: Let_def)
  also have "\<dots> = demoLoop_index 8 2 [newNote 0 (4 * BEAT_TIME) 1 0 LeftHand None,
      newNote 1 (6 * BEAT_TIME) 2 0 RightHand None]"
    by (subst demoLoop_index.simps) (simp add: Let_def numeral_2_eq_2)
  finally have "2 \<le> length (demoLoop_index 4 0 [])"
    using length_demoLoop_index [of "[newNote 0 (4 * BEAT_TIME) 1 0 LeftHand None,
      newNote 1 (6 * BEAT_TIME) 2 0 RightHand None]" 8 2] by simp
  then show ?thesis by (simp add: generateDemoChart_index_def)
qed

lemma two_notes: "1 < length (generateDemoChart (\<lambda>n. 0))"
proof -
  let ?rnd = "\<lambda>n::nat. 0::real"
  let ?n0 = "newNote 0 (12 * BEAT_TIME) 0 0 RightHand (Some False)"
  let ?n1 = "newNote 1 (16 * BEAT_TIME) 0 0 RightHand (Some False)"
  have "demoLoop ?rnd 12 0 0 [] = demoLoop ?rnd 13 1 5 [?n0]"
    by (subst demoLoop.simps) (simp add: Let_def)
  also have "\<dots> = demoLoop ?rnd 14 1 5 [?n0]"
    by (subst demoLoop.simps) (simp add: Let_def)
  also have "\<dots> = demoLoop ?rnd 15 1 5 [?n0]"
    by (subst demoLoop.simps) (simp add: Let_def)
  also have "\<dots> = demoLoop ?rnd 16 1 5 [?n0]"
    by (subst demoLoop.simps) (simp add: Let_def)
  also have "\<dots> = demoLoop ?rnd 17 2 10 [?n0, ?n1]"
    by (subst demoLoop.simps) (simp add: Let_def numeral_2_eq_2)
  finally have "2 \<le> length (demoLoop ?rnd 12 0 0 [])"
    using length_demoLoop [of "[?n0, ?n1]" ?rnd 17 2 10] by simp
  then show ?thesis by (simp add: generateDemoChart_def)
qed

text \<open>Both charts have at least two notes, and the first is not later than the second.\<close>

theorem C10_witness:
  "(0::nat) \<le> 1 \<and> 1 < length generateDemoChart_index \<and>
   1 < length (generateDemoChart (\<lambda>n. 0)) \<and>
   time (generateDemoChart_index ! 0) \<le> time (generateDemoChart_index ! 1) \<and>
   time (generateDemoChart (\<lambda>n. 0) ! 0) \<le> time (generateDemoChart (\<lambda>n. 0) ! 1)"
  using C10_chart_sorted [of "\<lambda>n. 0"] two_notes_index two_notes by simp

section \<open>Game over\<close>

lemma activateNotes_all_due:
  assumes "\<forall>n\<in>set chart. time n - spawnAheadTime \<le> t"
  shows "activateNotes t (initialScene chart) =
     \<lparr>notesState = chart, activeNotes = [0..<length chart], nextNoteIndex = length chart\<rparr>"
proof -
  let ?s = "initialScene chart"
  let ?c = "nextNoteIndex (activateNotes t ?s)"
  have le: "?c \<le> length chart"
    using activateNotes_bound [of ?s t] by (simp add: initialScene_def)
  have "\<not> ?c < length chart"
  proof
    assume lt: "?c < length chart"
    then have "\<not> time (chart ! ?c) - spawnAheadTime \<le> t"
      using activateNotes_stop [of t ?s] by (simp add: initialScene_def)
    moreover have "chart ! ?c \<in> set chart" using lt by simp
    ultimately show False using assms by blast
  qed
  then have c: "?c = length chart" using le by simp
  have "activeNotes (activateNotes t ?s) = [0..<length chart]"
    using activateNotes_active [of t ?s] c by (simp add: initialScene_def)
  moreover have "notesState (activateNotes t ?s) = chart"
    by (simp add: initialScene_def)
  ultimately show ?thesis
    using c by (intro GameSceneState.equality) simp_all
qed

lemma initialScene_notes: "notesState (initialScene chart) = chart"
  by (simp add: initialScene_def)

lemma activate_missChart:
  "activateNotes 10 (initialScene missChart) =
     \<lparr>notesState = missChart, activeNotes = [0..<8], nextNoteIndex = 8\<rparr>"
  using activateNotes_all_due [of missChart 10]
  by (simp add: missChart_def newNote_def spawnAheadTime_def SPAWN_Z_def PLAYER_Z_def
      NOTE_SPEED_def)

lemma miss_events:
  "snd (useFrame PLAYING (Some \<lparr>currentTime = 10, ended = False\<rparr>) initialHands
      (initialScene missChart)) =
   [NoteMiss 7, NoteMiss 6, NoteMiss 5, NoteMiss 4, NoteMiss 3, NoteMiss 2, NoteMiss 1, NoteMiss 0]"
proof -
  have j: "\<And>k. k < 8 \<Longrightarrow> judge 10 initialHands (missChart ! k) = Missed"
    by (simp add: missChart_def newNote_def judge_def currentZ_def PLAYER_Z_def NOTE_SPEED_def
        MISS_Z_def)
  have u: "rev [0..<8] = [7, 6, 5, 4, 3, 2, 1, 0::nat]"
    by (simp add: upt_rec)
  from useFrame_spec [OF wellFormed_initialScene,
      where a = "\<lparr>currentTime = 10, ended = False\<rparr>" and chart1 = missChart
        and hands = initialHands]
  have "snd (useFrame PLAYING (Some \<lparr>currentTime = 10, ended = False\<rparr>) initialHands
      (initialScene missChart)) =
    concat (map (\<lambda>k. judgementEvents k (judge 10 initialHands (missChart ! k))) (rev [0..<8]))"
    using initialScene_notes [of missChart] by (auto simp: activate_missChart)
  then show ?thesis
    unfolding u by (simp add: j)
qed

text \<open>
  C7 as stated fails. A frame that comes late misses eight notes at once: the seventh miss
  brings the health to 0 and queues \<^verbatim>\<open>endGame(false)\<close>, and the eighth queues it again, so
  the call fires twice after one frame, in either build. And in the modular build twenty
  bad hits bring the health to 0 with no call queued: the phase remains PLAYING.
\<close>

theorem C7_counterexample:
  "pendingTimeouts (foldl reduce_index initialApp
      (snd (useFrame PLAYING (Some \<lparr>currentTime = 10, ended = False\<rparr>) initialHands
         (initialScene missChart)))) = [False, False] \<and>
   pendingTimeouts (foldl reduce initialApp
      (snd (useFrame PLAYING (Some \<lparr>currentTime = 10, ended = False\<rparr>) initialHands
         (initialScene missChart)))) = [False, False] \<and>
   health (foldl reduce initialApp (map (\<lambda>k. NoteHit k False) [0..<20])) = 0 \<and>
   gameStatus (runTimeouts (foldl reduce initialApp (map (\<lambda>k. NoteHit k False) [0..<20])))
     = PLAYING"
  unfolding miss_events
  by (simp add: initialApp_def handleNoteMiss_index_def handleNoteMiss_def handleNoteHit_def
      runTimeouts_def Let_def upt_rec)

lemma gameStatus_endGames:
  "gameStatus (foldl (\<lambda>a victory. endGame victory a) s q) =
     (if q = [] then gameStatus s else if last q then VICTORY else GAME_OVER)"
  by (induction q arbitrary: s) (simp_all add: endGame_def)

lemma fields_endGames:
  "health (foldl (\<lambda>a victory. endGame victory a) s q) = health s"
  "score (foldl (\<lambda>a victory. endGame victory a) s q) = score s"
  by (induction q arbitrary: s) (simp_all add: endGame_def)

lemma runTimeouts_game_over:
  "q \<noteq> [] \<Longrightarrow> set q \<subseteq> {False} \<Longrightarrow> pendingTimeouts s = q \<Longrightarrow>
   gameStatus (runTimeouts s) = GAME_OVER"
proof -
  assume q: "q \<noteq> []" "set q \<subseteq> {False}" "pendingTimeouts s = q"
  then have "last q \<in> set q" by simp
  then have "\<not> last q" using q(2) by blast
  then show ?thesis using q by (simp add: runTimeouts_def gameStatus_endGames)
qed

lemma queued_hit_miss_index:
  "queued s \<Longrightarrow> queued (handleNoteHit_index note g s)"
  "queued s \<Longrightarrow> queued (handleNoteMiss_index note s)"
  by (auto simp: queued_def handleNoteHit_index_def handleNoteMiss_index_def Let_def)

lemma queued_foldl_index:
  "queued s \<Longrightarrow> SongEnd \<notin> set es \<Longrightarrow> queued (foldl reduce_index s es)"
proof (induction es arbitrary: s)
  case Nil
  then show ?case by simp
next
  case (Cons e es)
  then show ?case by (cases e) (simp_all add: queued_hit_miss_index)
qed

lemma SongEnd_notin_judgementEvents: "SongEnd \<notin> set (judgementEvents k j)"
  by (cases j) simp_all

lemma useFrame_events:
  "useFrame status audio hands scene = (scene, [SongEnd]) \<or>
   SongEnd \<notin> set (snd (useFrame status audio hands scene))"
proof (cases "status = PLAYING \<and> (\<exists>a. audio = Some a \<and> \<not> ended a)")
  case True
  then obtain a where a: "audio = Some a" "\<not> ended a" "status = PLAYING" by blast
  have "\<And>n st. SongEnd \<notin> set (snd st) \<Longrightarrow>
      SongEnd \<notin> set (snd (judgeLoop (currentTime a) hands n st))"
  proof -
    fix n st
    show "SongEnd \<notin> set (snd st) \<Longrightarrow>
      SongEnd \<notin> set (snd (judgeLoop (currentTime a) hands n st))"
    proof (induction n arbitrary: st)
      case 0
      then show ?case by simp
    next
      case (Suc n)
      have "SongEnd \<notin> set (snd (judgeAt (currentTime a) hands n st))"
        using Suc.prems
        by (cases st) (simp add: judgeAt_judge Let_def SongEnd_notin_judgementEvents)
      then show ?case by (simp add: Suc.IH)
    qed
  qed
  then show ?thesis using a by (simp add: useFrame_def Let_def)
next
  case False
  then show ?thesis by (auto simp: useFrame_def split: option.splits)
qed

text \<open>
  C7 (as amended). Every miss that finds the health at 15 or less sets it to 0 and queues
  one \<^verbatim>\<open>endGame(false)\<close> call of its own; there is no guard, so several such misses queue
  several calls. The calls are idempotent: running any non-empty queue of them leaves the
  phase GAME_OVER. In \<^verbatim>\<open>index.tsx\<close>, a frame of a playing session that brings the health to
  0 ends in phase GAME_OVER. With the phase GAME_OVER the frame update returns at once:
  no note changes and no hit or miss callback is invoked.
\<close>

theorem C7_game_over:
  "pendingTimeouts (handleNoteMiss_index note s) =
     (if health s \<le> 15 then pendingTimeouts s @ [False] else pendingTimeouts s) \<and>
   pendingTimeouts (handleNoteMiss note s) =
     (if health s \<le> 15 then pendingTimeouts s @ [False] else pendingTimeouts s) \<and>
   health (handleNoteMiss_index note s) = (if health s \<le> 15 then 0 else health s - 15) \<and>
   health (handleNoteMiss note s) = (if health s \<le> 15 then 0 else health s - 15) \<and>
   gameStatus (runTimeouts (s\<lparr>pendingTimeouts := replicate (Suc n) False\<rparr>)) = GAME_OVER \<and>
   (gameStatus app = PLAYING \<and> 0 < health app \<and> pendingTimeouts app = [] \<and>
    health (fst (sessionFrame reduce_index audio hands (app, scene))) = 0 \<longrightarrow>
      gameStatus (fst (sessionFrame reduce_index audio hands (app, scene))) = GAME_OVER) \<and>
   (gameStatus app = GAME_OVER \<longrightarrow>
      useFrame (gameStatus app) audio hands scene = (scene, []) \<and>
      (pendingTimeouts app = [] \<longrightarrow>
         sessionFrame reduce_index audio hands (app, scene) = (app, scene) \<and>
         sessionFrame reduce audio hands (app, scene) = (app, scene)))"
proof (intro conjI impI)
  show "gameStatus (runTimeouts (s\<lparr>pendingTimeouts := replicate (Suc n) False\<rparr>)) = GAME_OVER"
    by (rule runTimeouts_game_over [of "replicate (Suc n) False"]) auto
next
  assume h: "gameStatus app = PLAYING \<and> 0 < health app \<and> pendingTimeouts app = [] \<and>
    health (fst (sessionFrame reduce_index audio hands (app, scene))) = 0"
  let ?es = "snd (useFrame (gameStatus app) audio hands scene)"
  let ?app' = "foldl reduce_index app ?es"
  have fr: "fst (sessionFrame reduce_index audio hands (app, scene)) = runTimeouts ?app'"
    by (simp add: sessionFrame_def Let_def)
  have hz: "health (fst (sessionFrame reduce_index audio hands (app, scene))) = 0"
    using h by simp
  have h0: "health ?app' = 0"
    using hz unfolding fr by (simp add: runTimeouts_def fields_endGames)
  have "?es \<noteq> [SongEnd]"
  proof
    assume "?es = [SongEnd]"
    then have "health ?app' = health app" by (simp add: endGame_def)
    then show False using h h0 by simp
  qed
  then have "SongEnd \<notin> set ?es"
    using useFrame_events [of "gameStatus app" audio hands scene] by auto
  moreover have "queued app" using h by (simp add: queued_def)
  ultimately have "queued ?app'" by (rule queued_foldl_index [rotated])
  then have "pendingTimeouts ?app' \<noteq> []" "set (pendingTimeouts ?app') \<subseteq> {False}"
    using h0 by (simp_all add: queued_def)
  then show "gameStatus (fst (sessionFrame reduce_index audio hands (app, scene))) = GAME_OVER"
    unfolding fr by (intro runTimeouts_game_over [of "pendingTimeouts ?app'"]) simp_all
next
  assume g: "gameStatus app = GAME_OVER"
  then show "useFrame (gameStatus app) audio hands scene = (scene, [])"
    by (simp add: useFrame_def)
  assume "pendingTimeouts app = []"
  then have "runTimeouts app = app" by (simp add: runTimeouts_def)
  then show "sessionFrame reduce_index audio hands (app, scene) = (app, scene)"
    and "sessionFrame reduce audio hands (app, scene) = (app, scene)"
    using g by (simp_all add: sessionFrame_def useFrame_def)
qed (simp_all add: handleNoteMiss_index_def handleNoteMiss_def Let_def)

text \<open>The late frame over eight notes from the initial state, and a frame after game over.\<close>

theorem C7_witness:
  "gameStatus initialApp = PLAYING \<and> 0 < health initialApp \<and> pendingTimeouts initialApp = [] \<and>
   health (fst (sessionFrame reduce_index (Some \<lparr>currentTime = 10, ended = False\<rparr>) initialHands
      (initialApp, initialScene missChart))) = 0 \<and>
   gameStatus (fst (sessionFrame reduce_index (Some \<lparr>currentTime = 10, ended = False\<rparr>)
      initialHands (initialApp, initialScene missChart))) = GAME_OVER \<and>
   gameStatus (endGame False initialApp) = GAME_OVER \<and>
   pendingTimeouts (endGame False initialApp) = [] \<and>
   sessionFrame reduce_index (Some \<lparr>currentTime = 10, ended = False\<rparr>) initialHands
      (endGame False initialApp, initialScene missChart) =
      (endGame False initialApp, initialScene missChart)"
proof -
  let ?audio = "Some \<lparr>currentTime = 10, ended = False\<rparr>"
  have st: "gameStatus initialApp = PLAYING" "0 < health initialApp"
      "pendingTimeouts initialApp = []"
    by (simp_all add: initialApp_def)
  have hz: "health (fst (sessionFrame reduce_index ?audio initialHands
      (initialApp, initialScene missChart))) = 0"
    unfolding sessionFrame_def Let_def fst_conv snd_conv st(1) miss_events
    by (simp add: runTimeouts_def fields_endGames)
      (simp add: initialApp_def handleNoteMiss_index_def Let_def)
  have ov: "gameStatus (endGame False initialApp) = GAME_OVER"
      "pendingTimeouts (endGame False initialApp) = []"
    by (simp_all add: endGame_def initialApp_def)
  show ?thesis
    using C7_game_over [where app = initialApp and audio = ?audio and hands = initialHands
        and scene = "initialScene missChart"]
      C7_game_over [where app = "endGame False initialApp" and audio = ?audio
        and hands = initialHands and scene = "initialScene missChart"]
      st hz ov
    by simp
qed

section \<open>Grip classification\<close>

lemma curlLoop_count:
  "\<forall>f\<in>set fs. fst f < length lms \<and> snd f < length lms \<Longrightarrow>
   curlLoop lms fs c = Inr (c + length (filter (curled lms) fs))"
proof (induction fs arbitrary: c)
  case Nil
  then show ?case by simp
next
  case (Cons f fs)
  obtain tipI pipI where f: "f = (tipI, pipI)" by (cases f)
  show ?case
    using Cons by (simp add: f lookup_def curled_def)
qed

lemma curlLoop_index_count:
  "\<forall>f\<in>set fs. fst f < length lms \<and> snd f < length lms \<Longrightarrow> 0 < length lms \<Longrightarrow>
   curlLoop_index lms (lookup lms 0) fs c = Inr (c + length (filter (curled_index lms) fs))"
proof (induction fs arbitrary: c)
  case Nil
  then show ?case by simp
next
  case (Cons f fs)
  obtain tipI pipI where f: "f = (tipI, pipI)" by (cases f)
  show ?case
    using Cons by (simp add: f lookup_def curled_index_def Let_def)
qed

lemma joints_in_range:
  "21 \<le> length lms \<Longrightarrow> \<forall>f\<in>set fingerJoints. fst f < length lms \<and> snd f < length lms"
  by (simp add: fingerJoints_def)

lemma length_fingerJoints: "length fingerJoints = 4"
  by (simp add: fingerJoints_def)

text \<open>
  C9 (as amended). For a hand of at least 21 landmarks, the grip classifier of the hook
  \<^verbatim>\<open>useMediaPipe\<close> returns true exactly when all four non-thumb fingers are curled (tip
  lower than the PIP joint by more than 0.02 in image \<open>y\<close>); the classifier of \<^verbatim>\<open>index.tsx\<close>
  and of the preview returns true exactly when at least three of the four are curled (tip
  closer to the wrist than the PIP joint).
\<close>

theorem C9_grip_quorum:
  assumes "21 \<le> length lms"
  shows "checkGrip lms = Inr (\<forall>f\<in>set fingerJoints. curled lms f) \<and>
         checkGrip lms = Inr (length (filter (curled lms) fingerJoints) = 4) \<and>
         checkGrip_index lms = Inr (3 \<le> length (filter (curled_index lms) fingerJoints))"
proof -
  have "length (filter (curled lms) fingerJoints) = 4 \<longleftrightarrow>
      (\<forall>f\<in>set fingerJoints. curled lms f)"
    using length_fingerJoints
    by (metis filter_id_conv length_filter_less less_irrefl_nat filter_True)
  moreover have "checkGrip lms = Inr (length (filter (curled lms) fingerJoints) = 4)"
    using curlLoop_count [OF joints_in_range [OF assms], of 0]
    by (simp add: checkGrip_def)
  moreover have "checkGrip_index lms = Inr (3 \<le> length (filter (curled_index lms) fingerJoints))"
  proof -
    have "0 < length lms" using assms by (cases lms) simp_all
    from curlLoop_index_count [OF joints_in_range [OF assms] this, of 0]
    show ?thesis by (simp add: checkGrip_index_def)
  qed
  ultimately show ?thesis by simp
qed

lemma pointingHand_nth:
  "length pointingHand = 21"
  "pointingHand ! 6 = \<lparr>px = 0.5, py = 0.5, pz = 0\<rparr>"
  "pointingHand ! 8 = \<lparr>px = 0.5, py = 0.5, pz = 0\<rparr>"
  "pointingHand ! 10 = \<lparr>px = 0.5, py = 0.5, pz = 0\<rparr>"
  "pointingHand ! 12 = \<lparr>px = 0.5, py = 0.6, pz = 0\<rparr>"
  "pointingHand ! 14 = \<lparr>px = 0.5, py = 0.5, pz = 0\<rparr>"
  "pointingHand ! 16 = \<lparr>px = 0.5, py = 0.6, pz = 0\<rparr>"
  "pointingHand ! 18 = \<lparr>px = 0.5, py = 0.5, pz = 0\<rparr>"
  "pointingHand ! 20 = \<lparr>px = 0.5, py = 0.6, pz = 0\<rparr>"
  by (simp_all add: pointingHand_def flatHand_def)

text \<open>
  C9 as stated fails for the hook: with the index finger stretched and the other three
  fingers curled, three of four fingers are curled and the classifier returns false.
\<close>

theorem C9_counterexample:
  "length pointingHand = 21 \<and>
   length (filter (curled pointingHand) fingerJoints) = 3 \<and>
   checkGrip pointingHand = Inr False"
  by (simp add: checkGrip_def fingerJoints_def lookup_def curled_def pointingHand_nth)

theorem C9_witness:
  "21 \<le> length pointingHand \<and> checkGrip pointingHand = Inr False"
  using C9_grip_quorum [of pointingHand]
  by (simp add: fingerJoints_def curled_def pointingHand_nth)

section \<open>A hand that leaves the frame\<close>

lemma detectLoop_left:
  "detectLoop grip hs ls i d = Inr d' \<Longrightarrow> LeftHand \<notin> set (detectedSides hs ls i) \<Longrightarrow>
   newLeft d' = newLeft d \<and> leftGrip d' = leftGrip d"
proof (induction ls arbitrary: i d)
  case Nil
  then show ?case by simp
next
  case (Cons lms rest)
  show ?case
  proof (cases "classification hs i")
    case None
    then show ?thesis using Cons by simp
  next
    case (Some c)
    then have r: "categoryName c = ''Right''"
      using Cons.prems(2) by (simp add: sideOf_def split: if_splits)
    from Cons.prems(1) Some r obtain tip :: Landmark and g where
      "detectLoop grip hs rest (i + 1)
         (d\<lparr>newRight := Some (mapHandToWorld (px tip) (py tip)), rightGrip := g\<rparr>) = Inr d'"
      by (auto simp: Let_def split: option.splits sum.splits)
    from Cons.IH [OF this] Cons.prems(2) Some show ?thesis by simp
  qed
qed

lemma detectLoop_right:
  "detectLoop grip hs ls i d = Inr d' \<Longrightarrow> RightHand \<notin> set (detectedSides hs ls i) \<Longrightarrow>
   newRight d' = newRight d \<and> rightGrip d' = rightGrip d"
proof (induction ls arbitrary: i d)
  case Nil
  then show ?case by simp
next
  case (Cons lms rest)
  show ?case
  proof (cases "classification hs i")
    case None
    then show ?thesis using Cons by simp
  next
    case (Some c)
    then have r: "categoryName c \<noteq> ''Right''"
      using Cons.prems(2) by (simp add: sideOf_def split: if_splits)
    from Cons.prems(1) Some r obtain tip :: Landmark and g where
      "detectLoop grip hs rest (i + 1)
         (d\<lparr>newLeft := Some (mapHandToWorld (px tip) (py tip)), leftGrip := g\<rparr>) = Inr d'"
      by (auto simp: Let_def split: option.splits sum.splits)
    from Cons.IH [OF this] Cons.prems(2) Some show ?thesis by simp
  qed
qed

lemma detectLoop_total:
  assumes "\<forall>lms\<in>set ls. 21 \<le> length lms"
    and "\<And>lms. 21 \<le> length lms \<Longrightarrow> \<exists>b. grip lms = Inr b"
  shows "\<exists>d'. detectLoop grip hs ls i d = Inr d'"
  using assms(1)
proof (induction ls arbitrary: i d)
  case Nil
  then show ?case by simp
next
  case (Cons lms rest)
  have len: "21 \<le> length lms" using Cons.prems by simp
  then obtain b where b: "grip lms = Inr b" using assms(2) by blast
  have tip: "lookup lms 8 = Some (lms ! 8)" using len by (simp add: lookup_def)
  show ?case
    using Cons b tip by (cases "classification hs i") (simp_all add: Let_def)
qed

lemma updateLeft_absent:
  "newLeft d = None \<Longrightarrow>
   left (updateLeft dt d s) = None \<and> \<not> leftGripping (updateLeft dt d s) \<and>
   leftVelocity (updateLeft dt d s) = leftVelocity s"
  by (simp add: updateLeft_def)

lemma updateRight_absent:
  "newRight d = None \<Longrightarrow>
   right (updateRight dt d s) = None \<and> \<not> rightGripping (updateRight dt d s) \<and>
   rightVelocity (updateRight dt d s) = rightVelocity s"
  by (simp add: updateRight_def)

lemma updateRight_left:
  "left (updateRight dt d s) = left s" "leftGripping (updateRight dt d s) = leftGripping s"
  "leftVelocity (updateRight dt d s) = leftVelocity s"
  by (simp_all add: updateRight_def Let_def split: option.splits)

lemma updateLeft_right:
  "right (updateLeft dt d s) = right s" "rightGripping (updateLeft dt d s) = rightGripping s"
  "rightVelocity (updateLeft dt d s) = rightVelocity s"
  by (simp_all add: updateLeft_def Let_def split: option.splits)

lemma processResultsWith_absent:
  assumes "processResultsWith grip now results s = Inr s'"
  shows "(\<not> detects results LeftHand \<longrightarrow>
            left s' = None \<and> \<not> leftGripping s' \<and> leftVelocity s' = leftVelocity s) \<and>
         (\<not> detects results RightHand \<longrightarrow>
            right s' = None \<and> \<not> rightGripping s' \<and> rightVelocity s' = rightVelocity s)"
proof -
  let ?dt = "(now - lastTimestamp s) / 1000"
  let ?s0 = "s\<lparr>lastTimestamp := now\<rparr>"
  from assms obtain d where
    d: "(case landmarks results of None \<Rightarrow> Inr noDetection
         | Some ls \<Rightarrow> detectLoop grip (handedness results) ls 0 noDetection) = Inr d"
    and s': "s' = updateRight ?dt d (updateLeft ?dt d ?s0)"
    by (auto simp: processResultsWith_def Let_def split: sum.splits)
  have l: "newLeft d = None" if "\<not> detects results LeftHand"
  proof (cases "landmarks results")
    case None
    then show ?thesis using d by (auto simp: noDetection_def)
  next
    case (Some ls)
    then have "detectLoop grip (handedness results) ls 0 noDetection = Inr d"
      and "LeftHand \<notin> set (detectedSides (handedness results) ls 0)"
      using d that by (simp_all add: detects_def)
    from detectLoop_left [OF this] show ?thesis by (simp add: noDetection_def)
  qed
  have r: "newRight d = None" if "\<not> detects results RightHand"
  proof (cases "landmarks results")
    case None
    then show ?thesis using d by (auto simp: noDetection_def)
  next
    case (Some ls)
    then have "detectLoop grip (handedness results) ls 0 noDetection = Inr d"
      and "RightHand \<notin> set (detectedSides (handedness results) ls 0)"
      using d that by (simp_all add: detects_def)
    from detectLoop_right [OF this] show ?thesis by (simp add: noDetection_def)
  qed
  show ?thesis
    unfolding s'
    using updateLeft_absent [of d ?dt ?s0] updateRight_absent [of d ?dt "updateLeft ?dt d ?s0"] l r
    by (auto simp: updateRight_left updateLeft_right)
qed

lemma checkGrip_total: "21 \<le> length lms \<Longrightarrow> \<exists>b. checkGrip lms = Inr b"
  using curlLoop_count [OF joints_in_range, of lms 0] by (simp add: checkGrip_def)

lemma checkGrip_index_total: "21 \<le> length lms \<Longrightarrow> \<exists>b. checkGrip_index lms = Inr b"
proof -
  assume a: "21 \<le> length lms"
  then have "0 < length lms" by (cases lms) simp_all
  from curlLoop_index_count [OF joints_in_range [OF a] this, of 0]
  show ?thesis by (simp add: checkGrip_index_def)
qed

lemma processResultsWith_total:
  assumes "\<forall>lms\<in>set (case landmarks results of None \<Rightarrow> [] | Some ls \<Rightarrow> ls). 21 \<le> length lms"
    and "\<And>lms. 21 \<le> length lms \<Longrightarrow> \<exists>b. grip lms = Inr b"
  shows "processResultsWith grip now results s = Inr (predictWebcam grip now results s)"
proof -
  have "\<exists>d. (case landmarks results of None \<Rightarrow> Inr noDetection
         | Some ls \<Rightarrow> detectLoop grip (handedness results) ls 0 noDetection) = Inr d"
  proof (cases "landmarks results")
    case None
    then show ?thesis by simp
  next
    case (Some ls)
    then have "\<forall>lms\<in>set ls. 21 \<le> length lms" using assms(1) by simp
    from detectLoop_total [OF this assms(2)] Some show ?thesis by simp
  qed
  then obtain s' where "processResultsWith grip now results s = Inr s'"
    by (auto simp: processResultsWith_def Let_def)
  then show ?thesis by (simp add: predictWebcam_def)
qed

text \<open>
  C8 (as amended). For a result whose detections have their 21 landmarks,
  \<^verbatim>\<open>processResults\<close> returns normally, in either build, and for each side without a
  detection in the result the new hand state has no position and no grip, at once; the
  side's velocity is left as it was, however many consecutive results lack the side.
\<close>

theorem C8_absent_hand:
  assumes "\<forall>lms\<in>set (case landmarks results of None \<Rightarrow> [] | Some ls \<Rightarrow> ls). 21 \<le> length lms"
  shows
    "processResults now results s = Inr (predictWebcam checkGrip now results s) \<and>
     processResults_index now results s = Inr (predictWebcam checkGrip_index now results s) \<and>
     (\<forall>grip \<in> {checkGrip, checkGrip_index}.
        (\<not> detects results LeftHand \<longrightarrow>
           left (predictWebcam grip now results s) = None \<and>
           \<not> leftGripping (predictWebcam grip now results s) \<and>
           leftVelocity (predictWebcam grip now results s) = leftVelocity s) \<and>
        (\<not> detects results RightHand \<longrightarrow>
           right (predictWebcam grip now results s) = None \<and>
           \<not> rightGripping (predictWebcam grip now results s) \<and>
           rightVelocity (predictWebcam grip now results s) = rightVelocity s))"
proof -
  have a: "processResultsWith checkGrip now results s = Inr (predictWebcam checkGrip now results s)"
    using assms checkGrip_total by (rule processResultsWith_total)
  have b: "processResultsWith checkGrip_index now results s =
      Inr (predictWebcam checkGrip_index now results s)"
    using assms checkGrip_index_total by (rule processResultsWith_total)
  show ?thesis
    using a b processResultsWith_absent [OF a] processResultsWith_absent [OF b]
    by (simp add: processResults_def processResults_index_def)
qed

lemma flatHand_props:
  "length (flatHand x y) = 21"
  "i < 21 \<Longrightarrow> lookup (flatHand x y) i = Some \<lparr>px = x, py = y, pz = 0\<rparr>"
  by (simp_all add: flatHand_def lookup_def)

lemma checkGrip_flatHand: "checkGrip (flatHand x y) = Inr False"
  by (simp add: checkGrip_def fingerJoints_def flatHand_props)

lemma predictWebcam_leftFrame:
  "predictWebcam checkGrip now (leftFrame x y) s =
     updateRight ((now - lastTimestamp s) / 1000)
       (noDetection\<lparr>newLeft := Some (mapHandToWorld x y), leftGrip := False\<rparr>)
       (updateLeft ((now - lastTimestamp s) / 1000)
          (noDetection\<lparr>newLeft := Some (mapHandToWorld x y), leftGrip := False\<rparr>)
          (s\<lparr>lastTimestamp := now\<rparr>))"
  by (simp add: predictWebcam_def processResultsWith_def leftFrame_def classification_def
      lookup_def flatHand_def checkGrip_flatHand [unfolded flatHand_def] Let_def)

lemma predictWebcam_emptyFrame:
  "predictWebcam grip now emptyFrame s =
     s\<lparr>lastTimestamp := now, left := None, leftGripping := False,
       right := None, rightGripping := False\<rparr>"
  by (simp add: predictWebcam_def processResultsWith_def emptyFrame_def noDetection_def
      updateLeft_def updateRight_def Let_def)

lemma trackedHands_left:
  "leftVelocity trackedHands = \<lparr>vx = 0.6, vy = 0, vz = 0\<rparr>"
  by (simp add: trackedHands_def predictWebcam_leftFrame updateLeft_def updateRight_def
      noDetection_def initialHands_def mapHandToWorld_def lerpVectors_def subVectors_def
      divideScalar_def multiplyScalar_def LERP_def Let_def)

text \<open>
  C8 as stated fails in its last part: the left hand is tracked over two frames and moves,
  then two results in a row show no hand; the position is absent in both and the velocity
  still is the one computed last, not zero.
\<close>

theorem C8_counterexample:
  "left (predictWebcam checkGrip 3000 emptyFrame trackedHands) = None \<and>
   left (predictWebcam checkGrip 4000 emptyFrame
           (predictWebcam checkGrip 3000 emptyFrame trackedHands)) = None \<and>
   leftVelocity (predictWebcam checkGrip 4000 emptyFrame
           (predictWebcam checkGrip 3000 emptyFrame trackedHands)) = \<lparr>vx = 0.6, vy = 0, vz = 0\<rparr> \<and>
   \<lparr>vx = 0.6, vy = 0, vz = 0\<rparr> \<noteq> zeroVector"
  by (simp add: predictWebcam_emptyFrame trackedHands_left zeroVector_def)

text \<open>A frame that shows only a right hand, after the left hand was tracked.\<close>

theorem C8_witness:
  "21 \<le> length (flatHand 0.5 0.5) \<and>
   \<not> detects (rightFrame 0.5 0.5) LeftHand \<and>
   left (predictWebcam checkGrip 3000 (rightFrame 0.5 0.5) trackedHands) = None \<and>
   \<not> leftGripping (predictWebcam checkGrip 3000 (rightFrame 0.5 0.5) trackedHands) \<and>
   leftVelocity (predictWebcam checkGrip 3000 (rightFrame 0.5 0.5) trackedHands) =
     leftVelocity trackedHands"
  using C8_absent_hand [of "rightFrame 0.5 0.5" 3000 trackedHands]
  by (simp add: rightFrame_def detects_def classification_def lookup_def sideOf_def
      flatHand_props)

end
